theory Spec2Isabelle
  imports Complex_Main "HOL-Library.Word"
begin

section \<open>Data model of backend/main.py\<close>

text \<open>
  Exceptions of the Python code, as values. \<open>RecursionError\<close> is what Python raises
  when a flip is applied to a non-leaf node without children (the code recurses on the
  node itself).
\<close>

datatype error = IndexError | ValueError | ZeroDivisionError | RecursionError | OverflowError

text \<open>
  The dataclass \<open>QuadTreeNode\<close>: x, y, width, height, is_leaf, pixel_value, children.
  The two optional fields are \<open>None\<close> by default.
\<close>

datatype QuadTreeNode =
  QuadTreeNode (node_x: int) (node_y: int) (width: int) (height: int) (is_leaf: bool)
    (pixel_value: "int list option") (children: "QuadTreeNode list option")

text \<open>
  A numpy array of dtype uint8 with two or three dimensions, the only arrays the code
  indexes as \<open>image[y, x]\<close>: \<open>shape = (rows, cols)\<close> when \<open>chans = None\<close> and
  \<open>(rows, cols, c)\<close> when \<open>chans = Some c\<close>. \<open>elem a r c k\<close> is the entry at row r,
  column c, channel k (channel 0 of a two-dimensional array).
\<close>

record ndarray =
  rows :: nat
  cols :: nat
  chans :: "nat option"
  elem :: "nat \<Rightarrow> nat \<Rightarrow> nat \<Rightarrow> 8 word"

text \<open>
  The class \<open>QuadTree\<close>. \<open>original_shape\<close> keeps the shape of the source array (its
  entries are not kept); \<open>compression_ratio\<close> is a Python float, read here as the
  rational number it denotes.
\<close>

record QuadTree =
  threshold :: int
  shape_rows :: nat
  shape_cols :: nat
  shape_chans :: "nat option"
  tree_root :: QuadTreeNode
  compression_ratio :: rat

section \<open>numpy indexing and slicing\<close>

text \<open>\<open>image[y, x]\<close> with integer indices: a negative index counts from the end.\<close>

definition norm_index :: "nat \<Rightarrow> int \<Rightarrow> error + nat" where
  "norm_index n i =
     (let j = (if i < 0 then i + int n else i)
      in if 0 \<le> j \<and> j < int n then Inr (nat j) else Inl IndexError)"

definition channels :: "ndarray \<Rightarrow> nat list" where
  "channels a = (case chans a of None \<Rightarrow> [0] | Some c \<Rightarrow> [0..<c])"

definition getitem :: "ndarray \<Rightarrow> int \<Rightarrow> int \<Rightarrow> error + 8 word list" where
  "getitem a i j =
     (case norm_index (rows a) i of
        Inl e \<Rightarrow> Inl e
      | Inr r \<Rightarrow>
         (case norm_index (cols a) j of
            Inl e \<Rightarrow> Inl e
          | Inr c \<Rightarrow> Inr (map (elem a r c) (channels a))))"

text \<open>A slice \<open>start:stop\<close> of an axis of length n: both ends are clipped to the axis.\<close>

definition slice_bound :: "nat \<Rightarrow> int \<Rightarrow> nat" where
  "slice_bound n i = (if i < 0 then nat (max 0 (i + int n)) else nat (min i (int n)))"

definition py_slice :: "nat \<Rightarrow> int \<Rightarrow> int \<Rightarrow> nat list" where
  "py_slice n start stop = [slice_bound n start ..< slice_bound n stop]"

text \<open>
  The values of channel k in \<open>image[y:y+height, x:x+width]\<close>, in row-major order.
\<close>

definition region_values :: "ndarray \<Rightarrow> int \<Rightarrow> int \<Rightarrow> int \<Rightarrow> int \<Rightarrow> nat \<Rightarrow> 8 word list" where
  "region_values img x y w h k =
     concat (map (\<lambda>r. map (\<lambda>c. elem img r c k) (py_slice (cols img) x (x + w)))
                 (py_slice (rows img) y (y + h)))"

section \<open>Floating point\<close>

text \<open>
  Python floats are read as the rational numbers they denote. Every float operation of
  the source is written as the exact operation followed by the rounding \<open>fl\<close> of the
  platform (IEEE 754 binary64, round to nearest), which the functions below take as a
  parameter. \<open>float_rounding\<close> collects what the proofs need of it: rounding is
  monotone, leaves integers of small magnitude alone, and has a relative error of at
  most \<open>2^-53\<close> up to an absolute error of \<open>2^-1075\<close> (the subnormal range). The
  identity (exact arithmetic) is one such rounding.
\<close>

definition float_rounding :: "(rat \<Rightarrow> rat) \<Rightarrow> bool" where
  "float_rounding fl \<longleftrightarrow>
     (\<forall>a b. a \<le> b \<longrightarrow> fl a \<le> fl b) \<and>
     (\<forall>n::int. \<bar>n\<bar> \<le> 2 ^ 53 \<longrightarrow> fl (of_int n) = of_int n) \<and>
     (\<forall>a. \<bar>fl a - a\<bar> \<le> \<bar>a\<bar> / 2 ^ 53 + 1 / 2 ^ 1075)"

text \<open>\<open>int(c)\<close> of a float: truncation toward zero.\<close>

definition py_int :: "rat \<Rightarrow> int" where
  "py_int r = (if 0 \<le> r then \<lfloor>r\<rfloor> else \<lceil>r\<rceil>)"

section \<open>Building the tree\<close>

text \<open>
  \<open>np.std(values) < threshold\<close> is computed by numpy in floating point, with a square
  root; it is taken as the parameter \<open>std_lt\<close>. \<open>np.all\<close> over the channels of a colour
  image, the single deviation of a grayscale one.
\<close>

definition is_homogeneous ::
  "(8 word list \<Rightarrow> int \<Rightarrow> bool) \<Rightarrow> int \<Rightarrow> ndarray \<Rightarrow> int \<Rightarrow> int \<Rightarrow> int \<Rightarrow> int \<Rightarrow> bool" where
  "is_homogeneous std_lt thr img x y w h =
     (if w \<le> 1 \<or> h \<le> 1 then True
      else (case chans img of
              Some c \<Rightarrow> list_all (\<lambda>k. std_lt (region_values img x y w h k) thr) [0..<c]
            | None \<Rightarrow> std_lt (region_values img x y w h 0) thr))"

text \<open>
  \<open>int(np.mean(values))\<close>: the sum of the uint8 values is exact in a float64, the
  division rounds, \<open>int\<close> truncates. The mean of no value is nan, and \<open>int(nan)\<close>
  raises ValueError.
\<close>

definition mean_int :: "(rat \<Rightarrow> rat) \<Rightarrow> 8 word list \<Rightarrow> error + int" where
  "mean_int fl vs =
     (if vs = [] then Inl ValueError
      else Inr (py_int (fl (of_int (sum_list (map uint vs)) / of_int (int (length vs))))))"

fun sequence_err :: "(error + 'a) list \<Rightarrow> error + 'a list" where
  "sequence_err [] = Inr []"
| "sequence_err (r # rs) =
     (case r of
        Inl e \<Rightarrow> Inl e
      | Inr v \<Rightarrow> (case sequence_err rs of Inl e \<Rightarrow> Inl e | Inr vs \<Rightarrow> Inr (v # vs)))"

definition get_average_color ::
  "(rat \<Rightarrow> rat) \<Rightarrow> ndarray \<Rightarrow> int \<Rightarrow> int \<Rightarrow> int \<Rightarrow> int \<Rightarrow> error + int list" where
  "get_average_color fl img x y w h =
     (case chans img of
        Some c \<Rightarrow> sequence_err (map (\<lambda>k. mean_int fl (region_values img x y w h k)) [0..<c])
      | None \<Rightarrow>
         (case mean_int fl (region_values img x y w h 0) of
            Inl e \<Rightarrow> Inl e
          | Inr avg \<Rightarrow> Inr [avg, avg, avg]))"

text \<open>
  The forced leaf's colour: \<open>image[y, x].tolist()\<close> for a colour image,
  \<open>[int(image[y, x])] * 3\<close> for a grayscale one.
\<close>

definition pixel_list :: "ndarray \<Rightarrow> 8 word list \<Rightarrow> int list" where
  "pixel_list img px =
     (case chans img of
        Some c \<Rightarrow> map uint px
      | None \<Rightarrow> (case px of [] \<Rightarrow> [] | v # _ \<Rightarrow> replicate 3 (uint v)))"

function build_tree ::
  "(rat \<Rightarrow> rat) \<Rightarrow> (8 word list \<Rightarrow> int \<Rightarrow> bool) \<Rightarrow> int \<Rightarrow> ndarray \<Rightarrow>
     int \<Rightarrow> int \<Rightarrow> int \<Rightarrow> int \<Rightarrow> error + QuadTreeNode" where
  "build_tree fl std_lt thr img x y w h =
     (if w \<le> 1 \<or> h \<le> 1 then
        (case getitem img y x of
           Inl e \<Rightarrow> Inl e
         | Inr px \<Rightarrow> Inr (QuadTreeNode x y w h True (Some (pixel_list img px)) None))
      else if is_homogeneous std_lt thr img x y w h then
        (case get_average_color fl img x y w h of
           Inl e \<Rightarrow> Inl e
         | Inr avg \<Rightarrow> Inr (QuadTreeNode x y w h True (Some avg) None))
      else
        (case build_tree fl std_lt thr img x y (w div 2) (h div 2) of
           Inl e \<Rightarrow> Inl e
         | Inr nw \<Rightarrow>
        (case build_tree fl std_lt thr img (x + w div 2) y (w - w div 2) (h div 2) of
           Inl e \<Rightarrow> Inl e
         | Inr ne \<Rightarrow>
        (case build_tree fl std_lt thr img x (y + h div 2) (w div 2) (h - h div 2) of
           Inl e \<Rightarrow> Inl e
         | Inr sw \<Rightarrow>
        (case build_tree fl std_lt thr img (x + w div 2) (y + h div 2)
                (w - w div 2) (h - h div 2) of
           Inl e \<Rightarrow> Inl e
         | Inr se \<Rightarrow> Inr (QuadTreeNode x y w h False None (Some [nw, ne, sw, se])))))))"
  by pat_completeness auto
termination
  by (relation "measure (\<lambda>(fl, std_lt, thr, img, x, y, w, h). nat w)") auto

declare build_tree.simps [simp del]

section \<open>Statistics and construction\<close>

fun count_nodes :: "QuadTreeNode \<Rightarrow> nat" where
  "count_nodes (QuadTreeNode x y w h lf pv cs) =
     (if lf then 1
      else (case cs of None \<Rightarrow> 1 | Some l \<Rightarrow> 1 + sum_list (map count_nodes l)))"

text \<open>
  \<open>(total_pixels - node_count) / total_pixels * 100\<close>: a true division of two
  integers and a float product.
\<close>

definition calculate_compression_ratio ::
  "(rat \<Rightarrow> rat) \<Rightarrow> nat \<Rightarrow> nat \<Rightarrow> QuadTreeNode \<Rightarrow> error + rat" where
  "calculate_compression_ratio fl r c node =
     (let total_pixels = int r * int c; node_count = int (count_nodes node)
      in if total_pixels = 0 then Inl ZeroDivisionError
         else Inr (fl (fl (of_int (total_pixels - node_count) / of_int total_pixels) * 100)))"

definition QuadTree_init ::
  "(rat \<Rightarrow> rat) \<Rightarrow> (8 word list \<Rightarrow> int \<Rightarrow> bool) \<Rightarrow> ndarray \<Rightarrow> int \<Rightarrow> error + QuadTree" where
  "QuadTree_init fl std_lt img thr =
     (case build_tree fl std_lt thr img 0 0 (int (cols img)) (int (rows img)) of
        Inl e \<Rightarrow> Inl e
      | Inr node \<Rightarrow>
         (case calculate_compression_ratio fl (rows img) (cols img) node of
            Inl e \<Rightarrow> Inl e
          | Inr ratio \<Rightarrow>
              Inr \<lparr>threshold = thr, shape_rows = rows img, shape_cols = cols img,
                   shape_chans = chans img, tree_root = node, compression_ratio = ratio\<rparr>))"

section \<open>Flips\<close>

text \<open>\<open>node.pixel_value[:] if node.pixel_value else []\<close>\<close>

definition copy_pixel :: "int list option \<Rightarrow> int list" where
  "copy_pixel pv = (case pv of None \<Rightarrow> [] | Some l \<Rightarrow> l)"

lemma size_child:
  "children n = Some cs \<Longrightarrow> i < length cs \<Longrightarrow> size (cs ! i) < size n"
proof -
  assume a: "children n = Some cs" "i < length cs"
  then have "cs ! i \<in> set cs" by simp
  then have "size (cs ! i) \<le> size_list size cs"
    by (rule size_list_estimation') simp
  with a show ?thesis by (cases n) simp
qed

text \<open>
  The four recursive calls are made in the order the list display evaluates them; the
  first exception wins. A non-leaf node whose children are \<open>None\<close> or \<open>[]\<close> is passed
  to itself, which Python ends with RecursionError.
\<close>

function flip_horizontal_recursive :: "nat \<Rightarrow> QuadTreeNode \<Rightarrow> error + QuadTreeNode" where
  "flip_horizontal_recursive sw node =
     (if is_leaf node then
        Inr (QuadTreeNode (int sw - node_x node - width node) (node_y node) (width node)
               (height node) True (Some (copy_pixel (pixel_value node))) None)
      else
        (case children node of
           None \<Rightarrow> Inl RecursionError
         | Some cs \<Rightarrow>
            if cs = [] then Inl RecursionError
            else
              (case sequence_err
                      (map (\<lambda>i. if i < length cs then flip_horizontal_recursive sw (cs ! i)
                                else Inl IndexError) [1, 0, 3, 2]) of
                 Inl e \<Rightarrow> Inl e
               | Inr flipped_children \<Rightarrow>
                   Inr (QuadTreeNode (int sw - node_x node - width node) (node_y node)
                          (width node) (height node) False None (Some flipped_children)))))"
  by pat_completeness auto
termination
  by (relation "measure (\<lambda>(sw, node). size node)") (auto simp: size_child)

declare flip_horizontal_recursive.simps [simp del]

function flip_vertical_recursive :: "nat \<Rightarrow> QuadTreeNode \<Rightarrow> error + QuadTreeNode" where
  "flip_vertical_recursive sh node =
     (if is_leaf node then
        Inr (QuadTreeNode (node_x node) (int sh - node_y node - height node) (width node)
               (height node) True (Some (copy_pixel (pixel_value node))) None)
      else
        (case children node of
           None \<Rightarrow> Inl RecursionError
         | Some cs \<Rightarrow>
            if cs = [] then Inl RecursionError
            else
              (case sequence_err
                      (map (\<lambda>i. if i < length cs then flip_vertical_recursive sh (cs ! i)
                                else Inl IndexError) [2, 3, 0, 1]) of
                 Inl e \<Rightarrow> Inl e
               | Inr flipped_children \<Rightarrow>
                   Inr (QuadTreeNode (node_x node) (int sh - node_y node - height node)
                          (width node) (height node) False None (Some flipped_children)))))"
  by pat_completeness auto
termination
  by (relation "measure (\<lambda>(sh, node). size node)") (auto simp: size_child)

declare flip_vertical_recursive.simps [simp del]

definition flip_horizontal :: "QuadTree \<Rightarrow> error + QuadTree" where
  "flip_horizontal t =
     (case flip_horizontal_recursive (shape_cols t) (tree_root t) of
        Inl e \<Rightarrow> Inl e
      | Inr node \<Rightarrow> Inr (t\<lparr>tree_root := node\<rparr>))"

definition flip_vertical :: "QuadTree \<Rightarrow> error + QuadTree" where
  "flip_vertical t =
     (case flip_vertical_recursive (shape_rows t) (tree_root t) of
        Inl e \<Rightarrow> Inl e
      | Inr node \<Rightarrow> Inr (t\<lparr>tree_root := node\<rparr>))"

section \<open>Overlay\<close>

text \<open>
  numpy broadcasting of two one-dimensional arrays under a binary operation: equal
  lengths pair up, an array of length one is stretched, anything else raises ValueError.
\<close>

definition broadcast2 :: "(int \<Rightarrow> int \<Rightarrow> 'a) \<Rightarrow> int list \<Rightarrow> int list \<Rightarrow> error + 'a list" where
  "broadcast2 f c1 c2 =
     (if length c1 = length c2 then Inr (map (\<lambda>(a, b). f a b) (zip c1 c2))
      else if length c1 = 1 then Inr (map (\<lambda>b. f (c1 ! 0) b) c2)
      else if length c2 = 1 then Inr (map (\<lambda>a. f a (c2 ! 0)) c1)
      else Inl ValueError)"

text \<open>
  One channel of \<open>_apply_overlay_operation\<close>, with the final \<open>int(c)\<close>. The integer
  arithmetic of numpy's int64 is exact for colour values. An operation other than the four
  named ones takes the last branch, the blend formula again.
\<close>

definition blend_value :: "(rat \<Rightarrow> rat) \<Rightarrow> rat \<Rightarrow> int \<Rightarrow> int \<Rightarrow> rat" where
  "blend_value fl alpha a b = fl (fl (of_int a * fl (1 - alpha)) + fl (of_int b * alpha))"

definition overlay_channel :: "(rat \<Rightarrow> rat) \<Rightarrow> string \<Rightarrow> rat \<Rightarrow> int \<Rightarrow> int \<Rightarrow> int" where
  "overlay_channel fl operation alpha a b =
     (if operation = ''blend'' then py_int (blend_value fl alpha a b)
      else if operation = ''add'' then min (a + b) 255
      else if operation = ''multiply'' then py_int (fl (of_int (a * b) / 255))
      else if operation = ''screen'' then
        py_int (fl (255 - fl (of_int ((255 - a) * (255 - b)) / 255)))
      else py_int (blend_value fl alpha a b))"

definition apply_overlay_operation ::
  "(rat \<Rightarrow> rat) \<Rightarrow> int list \<Rightarrow> int list \<Rightarrow> string \<Rightarrow> rat \<Rightarrow> error + int list" where
  "apply_overlay_operation fl color1 color2 operation alpha =
     broadcast2 (overlay_channel fl operation alpha) color1 color2"

definition expand_leaf_node :: "QuadTreeNode \<Rightarrow> QuadTreeNode" where
  "expand_leaf_node node =
     (if width node \<le> 1 \<or> height node \<le> 1 then node
      else
        (let mid_x = width node div 2; mid_y = height node div 2;
             pv = Some (copy_pixel (pixel_value node))
         in QuadTreeNode (node_x node) (node_y node) (width node) (height node) False None
              (Some
                [QuadTreeNode (node_x node) (node_y node) mid_x mid_y True pv None,
                 QuadTreeNode (node_x node + mid_x) (node_y node) (width node - mid_x) mid_y
                   True pv None,
                 QuadTreeNode (node_x node) (node_y node + mid_y) mid_x (height node - mid_y)
                   True pv None,
                 QuadTreeNode (node_x node + mid_x) (node_y node + mid_y) (width node - mid_x)
                   (height node - mid_y) True pv None])))"

text \<open>\<open>node.pixel_value or [0,0,0]\<close> and \<open>node.children or []\<close>\<close>

definition color_or_black :: "QuadTreeNode \<Rightarrow> int list" where
  "color_or_black node =
     (case pixel_value node of None \<Rightarrow> [0, 0, 0] | Some l \<Rightarrow> if l = [] then [0, 0, 0] else l)"

definition children_or_empty :: "QuadTreeNode \<Rightarrow> QuadTreeNode list" where
  "children_or_empty node = (case children node of None \<Rightarrow> [] | Some l \<Rightarrow> l)"

text \<open>The operand of the merge: a leaf is expanded first.\<close>

definition expanded :: "QuadTreeNode \<Rightarrow> QuadTreeNode" where
  "expanded node = (if is_leaf node then expand_leaf_node node else node)"

lemma size_children_or_empty:
  "c \<in> set (children_or_empty n) \<Longrightarrow> size c < size n"
proof (cases n)
  case (QuadTreeNode x1 x2 x3 x4 x5 x6 x7)
  assume c: "c \<in> set (children_or_empty n)"
  show ?thesis
  proof (cases x7)
    case None
    with c QuadTreeNode show ?thesis by (simp add: children_or_empty_def)
  next
    case (Some l)
    with c QuadTreeNode have "c \<in> set l" by (simp add: children_or_empty_def)
    then have "size c \<le> size_list size l" by (rule size_list_estimation') simp
    with Some QuadTreeNode show ?thesis by simp
  qed
qed

lemma size_children_expanded:
  "c \<in> set (children_or_empty (expanded n)) \<Longrightarrow> size c \<le> size n"
proof (cases "is_leaf n \<and> \<not> (width n \<le> 1 \<or> height n \<le> 1)")
  case False
  assume "c \<in> set (children_or_empty (expanded n))"
  with False have "c \<in> set (children_or_empty n)"
    by (auto simp: expanded_def expand_leaf_node_def split: if_splits)
  then show ?thesis using size_children_or_empty [of c n] by simp
next
  case True
  assume "c \<in> set (children_or_empty (expanded n))"
  with True have "size c = Suc (Suc 0)"
    by (auto simp: expanded_def expand_leaf_node_def children_or_empty_def Let_def)
  moreover have "Suc (Suc 0) \<le> size n" by (cases n; cases "children n") simp_all
  ultimately show ?thesis by simp
qed

text \<open>
  \<open>_overlay_recursive\<close>. The list comprehension indexes both child lists at
  \<open>i = 0, 1, 2, 3\<close> in turn; an index past the end of either list raises IndexError.
\<close>

function overlay_recursive ::
  "(rat \<Rightarrow> rat) \<Rightarrow> QuadTreeNode \<Rightarrow> QuadTreeNode \<Rightarrow> string \<Rightarrow> rat \<Rightarrow> error + QuadTreeNode" where
  "overlay_recursive fl node1 node2 operation alpha =
     (if is_leaf node1 \<and> is_leaf node2 then
        (case apply_overlay_operation fl (color_or_black node1) (color_or_black node2)
                operation alpha of
           Inl e \<Rightarrow> Inl e
         | Inr result_color \<Rightarrow>
             Inr (QuadTreeNode (node_x node1) (node_y node1) (width node1) (height node1)
                    True (Some result_color) None))
      else
        (case sequence_err
                (map (\<lambda>i. if i < length (children_or_empty (expanded node1)) \<and>
                              i < length (children_or_empty (expanded node2))
                           then overlay_recursive fl (children_or_empty (expanded node1) ! i)
                                  (children_or_empty (expanded node2) ! i) operation alpha
                           else Inl IndexError) [0..<4]) of
           Inl e \<Rightarrow> Inl e
         | Inr overlay_children \<Rightarrow>
             Inr (QuadTreeNode (node_x (expanded node1)) (node_y (expanded node1))
                    (width (expanded node1)) (height (expanded node1)) False None
                    (Some overlay_children))))"
  by pat_completeness auto
termination
proof (relation "measure (\<lambda>(fl, node1, node2, operation, alpha). size node1 + size node2)")
  show "wf (measure (\<lambda>(fl, node1, node2, operation, alpha). size node1 + size node2))"
    by simp
next
  fix fl :: "rat \<Rightarrow> rat" and node1 node2 :: QuadTreeNode and operation :: string
    and alpha :: rat and i :: nat
  assume nl: "\<not> (is_leaf node1 \<and> is_leaf node2)"
    and i: "i < length (children_or_empty (expanded node1)) \<and>
            i < length (children_or_empty (expanded node2))"
  let ?c1 = "children_or_empty (expanded node1) ! i"
  let ?c2 = "children_or_empty (expanded node2) ! i"
  from i have m1: "?c1 \<in> set (children_or_empty (expanded node1))"
    and m2: "?c2 \<in> set (children_or_empty (expanded node2))" by simp_all
  have le1: "size ?c1 \<le> size node1" and le2: "size ?c2 \<le> size node2"
    using m1 m2 by (auto dest: size_children_expanded)
  from nl have "size ?c1 < size node1 \<or> size ?c2 < size node2"
  proof (cases "is_leaf node1")
    case False
    with m1 show ?thesis by (auto simp: expanded_def dest: size_children_or_empty)
  next
    case True
    with nl have "\<not> is_leaf node2" by simp
    with m2 show ?thesis by (auto simp: expanded_def dest: size_children_or_empty)
  qed
  with le1 le2 show "((fl, ?c1, ?c2, operation, alpha), (fl, node1, node2, operation, alpha))
      \<in> measure (\<lambda>(fl, node1, node2, operation, alpha). size node1 + size node2)"
    by auto
qed

declare overlay_recursive.simps [simp del]

definition overlay :: "(rat \<Rightarrow> rat) \<Rightarrow> QuadTree \<Rightarrow> QuadTree \<Rightarrow> string \<Rightarrow> rat \<Rightarrow> error + QuadTree" where
  "overlay fl t other_tree operation alpha =
     (case overlay_recursive fl (tree_root t) (tree_root other_tree) operation alpha of
        Inl e \<Rightarrow> Inl e
      | Inr node \<Rightarrow>
          Inr \<lparr>threshold = threshold t, shape_rows = shape_rows t, shape_cols = shape_cols t,
               shape_chans = shape_chans t, tree_root = node,
               compression_ratio =
                 fl (fl (compression_ratio t + compression_ratio other_tree) / 2)\<rparr>)"

section \<open>Rendering\<close>

definition zeros :: "nat \<Rightarrow> nat \<Rightarrow> nat option \<Rightarrow> ndarray" where
  "zeros r c ch = \<lparr>rows = r, cols = c, chans = ch, elem = (\<lambda>i j k. 0)\<rparr>"

text \<open>
  \<open>image[y:y+height, x:x+width] = value\<close>: every entry of the slice receives the
  value of its channel.
\<close>

definition in_slice :: "nat \<Rightarrow> int \<Rightarrow> int \<Rightarrow> nat \<Rightarrow> bool" where
  "in_slice n start stop i \<longleftrightarrow> slice_bound n start \<le> i \<and> i < slice_bound n stop"

definition fill_region :: "ndarray \<Rightarrow> int \<Rightarrow> int \<Rightarrow> int \<Rightarrow> int \<Rightarrow> (nat \<Rightarrow> 8 word) \<Rightarrow> ndarray" where
  "fill_region img x y w h f =
     img\<lparr>elem := (\<lambda>r c k. if in_slice (rows img) y (y + h) r \<and> in_slice (cols img) x (x + w) c
                           then f k else elem img r c k)\<rparr>"

text \<open>
  The value written by a leaf. The array is the one \<open>to_image\<close> allocated from
  \<open>original_shape\<close>, so its dimension decides the branch. A colour list is broadcast to
  the channels (its length is the channel count, or one); a grayscale array receives
  \<open>pixel_value[0]\<close>. A value outside 0..255 does not convert to uint8 (OverflowError in
  numpy 2); no colour computed from a uint8 raster is outside that range.
\<close>

definition leaf_value :: "ndarray \<Rightarrow> int list option \<Rightarrow> error + (nat \<Rightarrow> 8 word)" where
  "leaf_value img pv =
     (case chans img of
        Some c \<Rightarrow>
          (let value = (case pv of None \<Rightarrow> [0, 0, 0] | Some l \<Rightarrow> if l = [] then [0, 0, 0] else l)
           in if \<not> list_all (\<lambda>v. 0 \<le> v \<and> v \<le> 255) value then Inl OverflowError
              else if length value = c then Inr (\<lambda>k. word_of_int (value ! k))
              else if length value = 1 then Inr (\<lambda>k. word_of_int (value ! 0))
              else Inl ValueError)
      | None \<Rightarrow>
          (let value = (case pv of None \<Rightarrow> 0 | Some l \<Rightarrow> if l = [] then 0 else l ! 0)
           in if 0 \<le> value \<and> value \<le> 255 then Inr (\<lambda>k. word_of_int value)
              else Inl OverflowError))"

fun render_node :: "QuadTreeNode \<Rightarrow> ndarray \<Rightarrow> error + ndarray"
  and render_children :: "QuadTreeNode list \<Rightarrow> ndarray \<Rightarrow> error + ndarray" where
  "render_node (QuadTreeNode x y w h lf pv cs) img =
     (if lf then
        (case leaf_value img pv of
           Inl e \<Rightarrow> Inl e
         | Inr f \<Rightarrow> Inr (fill_region img x y w h f))
      else (case cs of None \<Rightarrow> Inr img | Some l \<Rightarrow> render_children l img))"
| "render_children [] img = Inr img"
| "render_children (child # rest) img =
     (case render_node child img of
        Inl e \<Rightarrow> Inl e
      | Inr img' \<Rightarrow> render_children rest img')"


section \<open>The JSON snapshot\<close>

datatype json = JNone | JBool bool | JInt int | JList "json list" | JDict "(string \<times> json) list"

fun to_dict :: "QuadTreeNode \<Rightarrow> json" where
  "to_dict (QuadTreeNode x y w h lf pv cs) =
     JDict
       ([(''x'', JInt x), (''y'', JInt y), (''width'', JInt w), (''height'', JInt h),
         (''is_leaf'', JBool lf),
         (''pixel_value'', (case pv of None \<Rightarrow> JNone | Some l \<Rightarrow> JList (map JInt l)))] @
        (case cs of
           None \<Rightarrow> []
         | Some l \<Rightarrow> if l = [] then [] else [(''children'', JList (map to_dict l))]))"

text \<open>The items of a dictionary, in insertion order, and its keys.\<close>

fun items :: "json \<Rightarrow> (string \<times> json) list" where
  "items (JDict kvs) = kvs"
| "items _ = []"

definition keys :: "json \<Rightarrow> string list" where
  "keys d = map fst (items d)"

section \<open>The overlay endpoint\<close>

text \<open>
  The request handler \<open>overlay_images\<close> of the API, from its checks on. Reading and
  decoding the uploads and the call of \<open>ImageProcessor.overlay_images\<close> on them are the
  parameter \<open>process\<close>. Every exception raised inside the handler's \<open>try\<close>, its own
  HTTPException(400) included, is caught by \<open>except Exception\<close> and raised again as
  HTTPException(500).
\<close>

datatype http_error = HTTPException nat

definition valid_operations :: "string list" where
  "valid_operations = [''blend'', ''add'', ''multiply'', ''screen'']"

definition overlay_images_checks :: "bool \<Rightarrow> bool \<Rightarrow> string \<Rightarrow> rat \<Rightarrow> http_error + unit" where
  "overlay_images_checks file1_is_image file2_is_image operation alpha =
     (if \<not> file1_is_image \<or> \<not> file2_is_image then Inl (HTTPException 400)
      else if operation \<notin> set valid_operations then Inl (HTTPException 400)
      else if \<not> (0 \<le> alpha \<and> alpha \<le> 1) then Inl (HTTPException 400)
      else Inr ())"

definition overlay_images_endpoint ::
  "bool \<Rightarrow> bool \<Rightarrow> string \<Rightarrow> rat \<Rightarrow> (string \<Rightarrow> rat \<Rightarrow> error + 'r) \<Rightarrow> http_error + 'r" where
  "overlay_images_endpoint file1_is_image file2_is_image operation alpha process =
     (case overlay_images_checks file1_is_image file2_is_image operation alpha of
        Inl e \<Rightarrow> Inl (HTTPException 500)
      | Inr u \<Rightarrow>
          (case process operation alpha of
             Inl e \<Rightarrow> Inl (HTTPException 500)
           | Inr result \<Rightarrow> Inr result))"

section \<open>Regions and tilings\<close>

text \<open>
  The nodes of a tree in preorder, as \<open>_count_nodes\<close> and \<open>_render_node\<close> traverse
  it: a leaf ends the descent.
\<close>

fun nodes_of :: "QuadTreeNode \<Rightarrow> QuadTreeNode list" where
  "nodes_of (QuadTreeNode x y w h lf pv cs) =
     QuadTreeNode x y w h lf pv cs #
     (if lf then []
      else (case cs of None \<Rightarrow> [] | Some l \<Rightarrow> concat (map nodes_of l)))"

definition leaves_of :: "QuadTreeNode \<Rightarrow> QuadTreeNode list" where
  "leaves_of n = filter is_leaf (nodes_of n)"

definition region :: "QuadTreeNode \<Rightarrow> int \<times> int \<times> int \<times> int" where
  "region n = (node_x n, node_y n, width n, height n)"

text \<open>
  \<open>quadrants mx my n cs\<close>: the list \<open>cs\<close> is four nodes NW, NE, SW, SE whose regions
  split the region of \<open>n\<close> at the offsets \<open>mx\<close> and \<open>my\<close>.
\<close>

definition quadrants :: "int \<Rightarrow> int \<Rightarrow> QuadTreeNode \<Rightarrow> QuadTreeNode list \<Rightarrow> bool" where
  "quadrants mx my n cs \<longleftrightarrow>
     map region cs =
       [(node_x n, node_y n, mx, my),
        (node_x n + mx, node_y n, width n - mx, my),
        (node_x n, node_y n + my, mx, height n - my),
        (node_x n + mx, node_y n + my, width n - mx, height n - my)]"

text \<open>
  The split offset of a side of length \<open>w\<close>: the floor half \<open>w div 2\<close>, or its mirror
  image \<open>w - w div 2\<close>.
\<close>

definition split_offset :: "bool \<Rightarrow> int \<Rightarrow> int" where
  "split_offset mirrored w = (if mirrored then w - w div 2 else w div 2)"

text \<open>
  \<open>split_everywhere mx my n\<close>: every internal node of the tree has exactly four children
  that split its region at \<open>split_offset mx width\<close> and \<open>split_offset my height\<close>.
\<close>

definition split_everywhere :: "bool \<Rightarrow> bool \<Rightarrow> QuadTreeNode \<Rightarrow> bool" where
  "split_everywhere mx my n \<longleftrightarrow>
     list_all (\<lambda>m. is_leaf m \<or>
                (case children m of
                   None \<Rightarrow> False
                 | Some cs \<Rightarrow> quadrants (split_offset mx (width m)) (split_offset my (height m)) m cs))
              (nodes_of n)"

text \<open>The pixels (column, row) of a node's region.\<close>

definition pixels :: "QuadTreeNode \<Rightarrow> (int \<times> int) set" where
  "pixels n = {(c, r). node_x n \<le> c \<and> c < node_x n + width n \<and>
                       node_y n \<le> r \<and> r < node_y n + height n}"

text \<open>
  The invariant of the trees the code produces, with the set \<open>S\<close> of the split modes
  its internal nodes may use: a leaf has a colour and no children; an internal node has
  no colour, sides longer than one and four children in quadrants.
\<close>

fun tiled :: "(bool \<times> bool) set \<Rightarrow> QuadTreeNode \<Rightarrow> bool" where
  "tiled S (QuadTreeNode x y w h lf pv cs) =
     (if lf then pv \<noteq> None \<and> cs = None
      else pv = None \<and> 1 < w \<and> 1 < h \<and>
        (case cs of
           None \<Rightarrow> False
         | Some l \<Rightarrow>
             (\<exists>m\<in>S. quadrants (split_offset (fst m) w) (split_offset (snd m) h)
                       (QuadTreeNode x y w h lf pv cs) l) \<and>
             (\<forall>c\<in>set l. tiled S c)))"

text \<open>A horizontal flip mirrors the split of the width, a vertical one that of the height.\<close>

definition flip_x :: "bool \<times> bool \<Rightarrow> bool \<times> bool" where
  "flip_x m = (\<not> fst m, snd m)"

definition flip_y :: "bool \<times> bool \<Rightarrow> bool \<times> bool" where
  "flip_y m = (fst m, \<not> snd m)"

text \<open>The trees the core produces: built from a raster, flipped, or overlaid.\<close>

inductive produced :: "(rat \<Rightarrow> rat) \<Rightarrow> (8 word list \<Rightarrow> int \<Rightarrow> bool) \<Rightarrow> QuadTree \<Rightarrow> bool"
  for fl :: "rat \<Rightarrow> rat" and std_lt :: "8 word list \<Rightarrow> int \<Rightarrow> bool" where
  built: "QuadTree_init fl std_lt img thr = Inr t \<Longrightarrow> produced fl std_lt t"
| flipped_horizontal:
    "produced fl std_lt t \<Longrightarrow> flip_horizontal t = Inr t' \<Longrightarrow> produced fl std_lt t'"
| flipped_vertical:
    "produced fl std_lt t \<Longrightarrow> flip_vertical t = Inr t' \<Longrightarrow> produced fl std_lt t'"
| overlaid:
    "produced fl std_lt t1 \<Longrightarrow> produced fl std_lt t2 \<Longrightarrow>
     overlay fl t1 t2 operation alpha = Inr t' \<Longrightarrow> produced fl std_lt t'"

text \<open>The i-th element of the list comprehension of \<open>_overlay_recursive\<close>.\<close>

definition overlay_child ::
  "(rat \<Rightarrow> rat) \<Rightarrow> QuadTreeNode \<Rightarrow> QuadTreeNode \<Rightarrow> string \<Rightarrow> rat \<Rightarrow> nat \<Rightarrow> error + QuadTreeNode" where
  "overlay_child fl n1 n2 operation alpha i =
     (if i < length (children_or_empty (expanded n1)) \<and>
         i < length (children_or_empty (expanded n2))
      then overlay_recursive fl (children_or_empty (expanded n1) ! i)
             (children_or_empty (expanded n2) ! i) operation alpha
      else Inl IndexError)"

text \<open>Every leaf's colour, as the overlay reads it, satisfies \<open>P\<close>.\<close>

definition leaf_colors :: "(int list \<Rightarrow> bool) \<Rightarrow> QuadTreeNode \<Rightarrow> bool" where
  "leaf_colors P n \<longleftrightarrow> list_all (\<lambda>m. P (color_or_black m)) (leaves_of n)"

text \<open>
  An internal node is quartered when it has exactly four children that split its region
  at the floor half of each side or at the mirror image of it.
\<close>

definition quartered :: "QuadTreeNode \<Rightarrow> bool" where
  "quartered m \<longleftrightarrow>
     (case children m of
        None \<Rightarrow> False
      | Some cs \<Rightarrow>
          list_ex (\<lambda>mx. list_ex (\<lambda>my.
              quadrants (split_offset mx (width m)) (split_offset my (height m)) m cs)
            [False, True]) [False, True])"

text \<open>
  \<open>tiles n cs\<close>: the list \<open>cs\<close> is four nodes whose regions are pairwise disjoint, lie
  inside the region of \<open>n\<close> and cover it.
\<close>

definition tiles :: "QuadTreeNode \<Rightarrow> QuadTreeNode list \<Rightarrow> bool" where
  "tiles n cs \<longleftrightarrow>
     (\<exists>nw ne sw se. cs = [nw, ne, sw, se] \<and>
        pixels nw \<inter> pixels ne = {} \<and> pixels nw \<inter> pixels sw = {} \<and>
        pixels nw \<inter> pixels se = {} \<and> pixels ne \<inter> pixels sw = {} \<and>
        pixels ne \<inter> pixels se = {} \<and> pixels sw \<inter> pixels se = {} \<and>
        pixels nw \<subseteq> pixels n \<and> pixels ne \<subseteq> pixels n \<and>
        pixels sw \<subseteq> pixels n \<and> pixels se \<subseteq> pixels n \<and>
        pixels nw \<union> pixels ne \<union> pixels sw \<union> pixels se = pixels n)"

text \<open>
  The number of entries of \<open>pixel_value or [0,0,0]\<close> at a leaf built from an array with
  the channels \<open>ch\<close>.
\<close>

definition color_length :: "nat option \<Rightarrow> nat" where
  "color_length ch = (case ch of None \<Rightarrow> 3 | Some c \<Rightarrow> if c = 0 then 3 else c)"

text \<open>
  Two colour lists can be combined when numpy can broadcast them: equal lengths, or one
  of them a single value. The rasters of the specification (grayscale, or one or three
  channels) always give such colours.
\<close>

definition broadcastable :: "nat \<Rightarrow> nat \<Rightarrow> bool" where
  "broadcastable k1 k2 \<longleftrightarrow> k1 = k2 \<or> k1 = 1 \<or> k2 = 1"

text \<open>
  \<open>visits n1 n2 p q\<close>: the recursion of \<open>_overlay_recursive\<close> on \<open>(n1, n2)\<close> reaches
  the pair \<open>(p, q)\<close>, provided no earlier call has raised.
\<close>

inductive visits :: "QuadTreeNode \<Rightarrow> QuadTreeNode \<Rightarrow> QuadTreeNode \<Rightarrow> QuadTreeNode \<Rightarrow> bool"
  for n1 n2 :: QuadTreeNode where
  start: "visits n1 n2 n1 n2"
| step: "visits n1 n2 p q \<Longrightarrow> \<not> (is_leaf p \<and> is_leaf q) \<Longrightarrow> i < 4 \<Longrightarrow>
         i < length (children_or_empty (expanded p)) \<Longrightarrow>
         i < length (children_or_empty (expanded q)) \<Longrightarrow>
         visits n1 n2 (children_or_empty (expanded p) ! i) (children_or_empty (expanded q) ! i)"


text \<open>The entries of the raster that the slice of a node's region selects.\<close>

definition covers :: "ndarray \<Rightarrow> QuadTreeNode \<Rightarrow> nat \<Rightarrow> nat \<Rightarrow> bool" where
  "covers img n r c \<longleftrightarrow>
     in_slice (rows img) (node_y n) (node_y n + height n) r \<and>
     in_slice (cols img) (node_x n) (node_x n + width n) c"


text \<open>The pixel of a raster as a list of channel values.\<close>

definition pixel_at :: "ndarray \<Rightarrow> nat \<Rightarrow> nat \<Rightarrow> int list" where
  "pixel_at img r c = map (\<lambda>k. uint (elem img r c k)) (channels img)"

text \<open>
  The colour a leaf shows in a raster: its stored colour in a colour raster, the first
  entry of it in a grayscale one.
\<close>

definition stored_color :: "nat option \<Rightarrow> QuadTreeNode \<Rightarrow> int list" where
  "stored_color ch n =
     (case ch of Some c \<Rightarrow> color_or_black n | None \<Rightarrow> take 1 (color_or_black n))"

text \<open>A colour that a raster with the channels \<open>ch\<close> can hold.\<close>

definition valid_color :: "nat option \<Rightarrow> int list \<Rightarrow> bool" where
  "valid_color ch l \<longleftrightarrow>
     length l = (case ch of None \<Rightarrow> 3 | Some c \<Rightarrow> c) \<and> list_all (\<lambda>v. 0 \<le> v \<and> v \<le> 255) l"

text \<open>The uint8 value a leaf writes to channel k of a raster with the channels \<open>ch\<close>.\<close>

definition leaf_word :: "nat option \<Rightarrow> QuadTreeNode \<Rightarrow> nat \<Rightarrow> 8 word" where
  "leaf_word ch n k =
     word_of_int (case ch of Some c \<Rightarrow> color_or_black n ! k | None \<Rightarrow> color_or_black n ! 0)"

section \<open>Examples\<close>

text \<open>
  An array of shape (rows, cols, 3) from nested lists, for the examples.
\<close>

definition rgb_image :: "nat list list list \<Rightarrow> ndarray" where
  "rgb_image px =
     \<lparr>rows = length px, cols = (case px of [] \<Rightarrow> 0 | r # _ \<Rightarrow> length r), chans = Some 3,
      elem = (\<lambda>r c k. of_nat (px ! r ! c ! k))\<rparr>"

text \<open>
  The exact value of \<open>np.std(values) < threshold\<close>: the variance of n values is
  \<open>(n * sum of squares - square of the sum) / n^2\<close>, and a deviation is never negative.
\<close>

definition std_lt_exact :: "8 word list \<Rightarrow> int \<Rightarrow> bool" where
  "std_lt_exact vs thr \<longleftrightarrow>
     vs \<noteq> [] \<and> 0 < thr \<and>
     int (length vs) * sum_list (map (\<lambda>v. uint v * uint v) vs) - (sum_list (map uint vs))\<^sup>2
       < thr\<^sup>2 * (int (length vs))\<^sup>2"

text \<open>
  A raster of three columns and two rows with six different colours, and its tree for
  the threshold 0 (no region is homogeneous).
\<close>

definition example_3x2 :: ndarray where
  "example_3x2 = rgb_image [[[1,2,3],[4,5,6],[7,8,9]],[[10,11,12],[13,14,15],[16,17,18]]]"

definition example_3x2_tree :: QuadTree where
  "example_3x2_tree =
     \<lparr>threshold = 0, shape_rows = 2, shape_cols = 3, shape_chans = Some 3,
        tree_root =
          QuadTreeNode 0 0 3 2 False None
           (Some
             [QuadTreeNode 0 0 1 1 True (Some [1, 2, 3]) None,
              QuadTreeNode 1 0 2 1 True (Some [4, 5, 6]) None,
              QuadTreeNode 0 1 1 1 True (Some [10, 11, 12]) None,
              QuadTreeNode 1 1 2 1 True (Some [13, 14, 15]) None]),
        compression_ratio = 50 / 3\<rparr>"

definition example_3x2_flipped :: QuadTree where
  "example_3x2_flipped =
     \<lparr>threshold = 0, shape_rows = 2, shape_cols = 3, shape_chans = Some 3,
        tree_root =
          QuadTreeNode 0 0 3 2 False None
           (Some
             [QuadTreeNode 0 0 2 1 True (Some [4, 5, 6]) None,
              QuadTreeNode 2 0 1 1 True (Some [1, 2, 3]) None,
              QuadTreeNode 0 1 2 1 True (Some [13, 14, 15]) None,
              QuadTreeNode 2 1 1 1 True (Some [10, 11, 12]) None]),
        compression_ratio = 50 / 3\<rparr>"

text \<open>
  A raster of the same shape in one colour, and its tree for the threshold 10: a single
  leaf.
\<close>

definition example_flat :: ndarray where
  "example_flat =
     rgb_image [[[200,100,50],[200,100,50],[200,100,50]],
                [[200,100,50],[200,100,50],[200,100,50]]]"

definition example_flat_tree :: QuadTree where
  "example_flat_tree =
     \<lparr>threshold = 10, shape_rows = 2, shape_cols = 3, shape_chans = Some 3,
        tree_root = QuadTreeNode 0 0 3 2 True (Some [200, 100, 50]) None,
        compression_ratio = 250 / 3\<rparr>"

text \<open>The overlay of the two example trees under the blend formula with alpha = 1/2.\<close>

definition example_blend :: QuadTree where
  "example_blend =
     \<lparr>threshold = 0, shape_rows = 2, shape_cols = 3, shape_chans = Some 3,
        tree_root =
          QuadTreeNode 0 0 3 2 False None
           (Some
             [QuadTreeNode 0 0 1 1 True (Some [100, 51, 26]) None,
              QuadTreeNode 1 0 2 1 True (Some [102, 52, 28]) None,
              QuadTreeNode 0 1 1 1 True (Some [105, 55, 31]) None,
              QuadTreeNode 1 1 2 1 True (Some [106, 57, 32]) None]),
        compression_ratio = 50\<rparr>"

text \<open>The nearest multiple of \<open>2^-k\<close>.\<close>

definition round_to :: "nat \<Rightarrow> rat \<Rightarrow> rat" where
  "round_to k x = of_int (round (x * 2 ^ k)) / 2 ^ k"

text \<open>
  The rounding of binary64 on the two binades that the blend example visits: a double in
  [1/2, 1) is a multiple of \<open>2^-53\<close>, a double in [8, 16) a multiple of \<open>2^-49\<close>. Other
  values are left as they are (those of the example, 0 and 9, are doubles).
\<close>

definition round_binades :: "rat \<Rightarrow> rat" where
  "round_binades x =
     (if 1 / 2 \<le> x \<and> x < 1 then round_to 53 x
      else if 8 \<le> x \<and> x < 16 then round_to 49 x
      else x)"

text \<open>The double that Python reads for \<open>0.1\<close>: \<open>3602879701896397 * 2^-55\<close>.\<close>

definition alpha_tenth :: rat where
  "alpha_tenth = 3602879701896397 / 2 ^ 55"




section \<open>The invariant of built trees\<close>

lemma sequence_err_map_Inr: "sequence_err (map Inr vs) = Inr vs"
  by (induction vs) simp_all

lemma sequence_err_Inr: "sequence_err rs = Inr vs \<longleftrightarrow> rs = map Inr vs"
proof
  show "sequence_err rs = Inr vs \<Longrightarrow> rs = map Inr vs"
    by (induction rs arbitrary: vs) (auto split: sum.splits)
qed (simp add: sequence_err_map_Inr)

lemma tiled_leaf: "is_leaf n \<Longrightarrow> tiled S n \<longleftrightarrow> pixel_value n \<noteq> None \<and> children n = None"
  by (cases n) simp

lemma build_tree_tiled:
  "build_tree fl std_lt thr img x y w h = Inr n \<Longrightarrow>
     tiled {(False, False)} n \<and> region n = (x, y, w, h)"
proof (induction fl std_lt thr img x y w h arbitrary: n rule: build_tree.induct)
  case (1 fl std_lt thr img x y w h)
  show ?case
  proof (cases "w \<le> 1 \<or> h \<le> 1")
    case True
    with "1.prems" show ?thesis
      by (auto simp: build_tree.simps [of fl std_lt thr img x y w h] region_def split: sum.splits)
  next
    case small: False
    show ?thesis
    proof (cases "is_homogeneous std_lt thr img x y w h")
      case True
      with small "1.prems" show ?thesis
        by (auto simp: build_tree.simps [of fl std_lt thr img x y w h] region_def split: sum.splits)
    next
      case False
      from small False "1.prems" obtain nw ne sw se where
        nw: "build_tree fl std_lt thr img x y (w div 2) (h div 2) = Inr nw" and
        ne: "build_tree fl std_lt thr img (x + w div 2) y (w - w div 2) (h div 2) = Inr ne" and
        sw: "build_tree fl std_lt thr img x (y + h div 2) (w div 2) (h - h div 2) = Inr sw" and
        se: "build_tree fl std_lt thr img (x + w div 2) (y + h div 2) (w - w div 2) (h - h div 2) = Inr se" and
        n: "n = QuadTreeNode x y w h False None (Some [nw, ne, sw, se])"
        by (auto simp: build_tree.simps [of fl std_lt thr img x y w h] split: sum.splits)
      note ih = "1.IH"(1)[OF small False nw] "1.IH"(2)[OF small False nw ne]
        "1.IH"(3)[OF small False nw ne sw] "1.IH"(4)[OF small False nw ne sw se]
      from ih small show ?thesis
        by (simp add: n region_def quadrants_def split_offset_def)
    qed
  qed
qed

section \<open>Flips keep the invariant and undo themselves\<close>

lemma list4: "length l = 4 \<longleftrightarrow> (\<exists>a b c d. l = [a, b, c, d])"
  by (auto simp: numeral_eq_Suc length_Suc_conv)

lemma quadrants_list4: "quadrants mx my n l \<Longrightarrow> \<exists>a b c d. l = [a, b, c, d]"
proof -
  assume "quadrants mx my n l"
  then have "length (map region l) = 4" unfolding quadrants_def by simp
  then show ?thesis by (simp add: list4)
qed

lemma flip_horizontal_internal:
  assumes "\<not> is_leaf n" "children n = Some [c0, c1, c2, c3]"
    and "flip_horizontal_recursive sw c0 = Inr d0" "flip_horizontal_recursive sw c1 = Inr d1"
    and "flip_horizontal_recursive sw c2 = Inr d2" "flip_horizontal_recursive sw c3 = Inr d3"
  shows "flip_horizontal_recursive sw n =
    Inr (QuadTreeNode (int sw - node_x n - width n) (node_y n) (width n) (height n) False None
          (Some [d1, d0, d3, d2]))"
  using assms by (simp add: flip_horizontal_recursive.simps [of sw n])

lemma flip_horizontal_leaf:
  "is_leaf n \<Longrightarrow> flip_horizontal_recursive sw n =
    Inr (QuadTreeNode (int sw - node_x n - width n) (node_y n) (width n) (height n) True
          (Some (copy_pixel (pixel_value n))) None)"
  by (simp add: flip_horizontal_recursive.simps [of sw n])

lemma flip_horizontal_tiled:
  "tiled S n \<Longrightarrow> \<exists>n'. flip_horizontal_recursive sw n = Inr n' \<and> tiled (flip_x ` S) n' \<and>
      region n' = (int sw - node_x n - width n, node_y n, width n, height n) \<and>
      flip_horizontal_recursive sw n' = Inr n"
proof (induction n)
  case (QuadTreeNode x y w h lf pv cs)
  show ?case
  proof (cases lf)
    case True
    with QuadTreeNode.prems show ?thesis
      by (auto simp: flip_horizontal_leaf region_def copy_pixel_def)
  next
    case False
    with QuadTreeNode.prems obtain l m where cs: "cs = Some l" and pv: "pv = None"
      and wh: "1 < w" "1 < h" and m: "m \<in> S"
      and q: "quadrants (split_offset (fst m) w) (split_offset (snd m) h)
                (QuadTreeNode x y w h lf pv cs) l"
      and ch: "\<forall>c\<in>set l. tiled S c"
      by (auto split: option.splits)
    from q obtain c0 c1 c2 c3 where l: "l = [c0, c1, c2, c3]"
      using quadrants_list4 by blast
    have ih: "\<exists>d. flip_horizontal_recursive sw c = Inr d \<and> tiled (flip_x ` S) d \<and>
        region d = (int sw - node_x c - width c, node_y c, width c, height c) \<and>
        flip_horizontal_recursive sw d = Inr c" if "c \<in> set l" for c
      using QuadTreeNode.IH [of l c] that ch cs by simp
    from ih [of c0] ih [of c1] ih [of c2] ih [of c3] l obtain d0 d1 d2 d3 where
      d0: "flip_horizontal_recursive sw c0 = Inr d0" "tiled (flip_x ` S) d0"
        "region d0 = (int sw - node_x c0 - width c0, node_y c0, width c0, height c0)"
        "flip_horizontal_recursive sw d0 = Inr c0" and
      d1: "flip_horizontal_recursive sw c1 = Inr d1" "tiled (flip_x ` S) d1"
        "region d1 = (int sw - node_x c1 - width c1, node_y c1, width c1, height c1)"
        "flip_horizontal_recursive sw d1 = Inr c1" and
      d2: "flip_horizontal_recursive sw c2 = Inr d2" "tiled (flip_x ` S) d2"
        "region d2 = (int sw - node_x c2 - width c2, node_y c2, width c2, height c2)"
        "flip_horizontal_recursive sw d2 = Inr c2" and
      d3: "flip_horizontal_recursive sw c3 = Inr d3" "tiled (flip_x ` S) d3"
        "region d3 = (int sw - node_x c3 - width c3, node_y c3, width c3, height c3)"
        "flip_horizontal_recursive sw d3 = Inr c3"
      by auto
    let ?n' = "QuadTreeNode (int sw - x - w) y w h False None (Some [d1, d0, d3, d2])"
    have fl: "flip_horizontal_recursive sw (QuadTreeNode x y w h lf pv cs) = Inr ?n'"
      using flip_horizontal_internal [OF _ _ d0(1) d1(1) d2(1) d3(1), of "QuadTreeNode x y w h lf pv cs"]
        False cs l by simp
    have again: "flip_horizontal_recursive sw ?n' = Inr (QuadTreeNode x y w h lf pv cs)"
      using flip_horizontal_internal [OF _ _ d1(4) d0(4) d3(4) d2(4), of ?n']
        False cs l pv by simp
    have "quadrants (split_offset (fst (flip_x m)) w) (split_offset (snd (flip_x m)) h) ?n'
            [d1, d0, d3, d2]"
      using q d0(3) d1(3) d2(3) d3(3) unfolding l quadrants_def region_def flip_x_def split_offset_def
      by (auto split: if_splits)
    moreover have "flip_x m \<in> flip_x ` S" using m by simp
    ultimately have "tiled (flip_x ` S) ?n'"
      using wh d0(2) d1(2) d2(2) d3(2) by auto
    with fl again show ?thesis by (simp add: region_def)
  qed
qed

lemma flip_vertical_internal:
  assumes "\<not> is_leaf n" "children n = Some [c0, c1, c2, c3]"
    and "flip_vertical_recursive sh c0 = Inr d0" "flip_vertical_recursive sh c1 = Inr d1"
    and "flip_vertical_recursive sh c2 = Inr d2" "flip_vertical_recursive sh c3 = Inr d3"
  shows "flip_vertical_recursive sh n =
    Inr (QuadTreeNode (node_x n) (int sh - node_y n - height n) (width n) (height n) False None
          (Some [d2, d3, d0, d1]))"
  using assms by (simp add: flip_vertical_recursive.simps [of sh n])

lemma flip_vertical_leaf:
  "is_leaf n \<Longrightarrow> flip_vertical_recursive sh n =
    Inr (QuadTreeNode (node_x n) (int sh - node_y n - height n) (width n) (height n) True
          (Some (copy_pixel (pixel_value n))) None)"
  by (simp add: flip_vertical_recursive.simps [of sh n])

lemma flip_vertical_tiled:
  "tiled S n \<Longrightarrow> \<exists>n'. flip_vertical_recursive sh n = Inr n' \<and> tiled (flip_y ` S) n' \<and>
      region n' = (node_x n, int sh - node_y n - height n, width n, height n) \<and>
      flip_vertical_recursive sh n' = Inr n"
proof (induction n)
  case (QuadTreeNode x y w h lf pv cs)
  show ?case
  proof (cases lf)
    case True
    with QuadTreeNode.prems show ?thesis
      by (auto simp: flip_vertical_leaf region_def copy_pixel_def)
  next
    case False
    with QuadTreeNode.prems obtain l m where cs: "cs = Some l" and pv: "pv = None"
      and wh: "1 < w" "1 < h" and m: "m \<in> S"
      and q: "quadrants (split_offset (fst m) w) (split_offset (snd m) h)
                (QuadTreeNode x y w h lf pv cs) l"
      and ch: "\<forall>c\<in>set l. tiled S c"
      by (auto split: option.splits)
    from q obtain c0 c1 c2 c3 where l: "l = [c0, c1, c2, c3]"
      using quadrants_list4 by blast
    have ih: "\<exists>d. flip_vertical_recursive sh c = Inr d \<and> tiled (flip_y ` S) d \<and>
        region d = (node_x c, int sh - node_y c - height c, width c, height c) \<and>
        flip_vertical_recursive sh d = Inr c" if "c \<in> set l" for c
      using QuadTreeNode.IH [of l c] that ch cs by simp
    from ih [of c0] ih [of c1] ih [of c2] ih [of c3] l obtain d0 d1 d2 d3 where
      d0: "flip_vertical_recursive sh c0 = Inr d0" "tiled (flip_y ` S) d0"
        "region d0 = (node_x c0, int sh - node_y c0 - height c0, width c0, height c0)"
        "flip_vertical_recursive sh d0 = Inr c0" and
      d1: "flip_vertical_recursive sh c1 = Inr d1" "tiled (flip_y ` S) d1"
        "region d1 = (node_x c1, int sh - node_y c1 - height c1, width c1, height c1)"
        "flip_vertical_recursive sh d1 = Inr c1" and
      d2: "flip_vertical_recursive sh c2 = Inr d2" "tiled (flip_y ` S) d2"
        "region d2 = (node_x c2, int sh - node_y c2 - height c2, width c2, height c2)"
        "flip_vertical_recursive sh d2 = Inr c2" and
      d3: "flip_vertical_recursive sh c3 = Inr d3" "tiled (flip_y ` S) d3"
        "region d3 = (node_x c3, int sh - node_y c3 - height c3, width c3, height c3)"
        "flip_vertical_recursive sh d3 = Inr c3"
      by auto
    let ?n' = "QuadTreeNode x (int sh - y - h) w h False None (Some [d2, d3, d0, d1])"
    have fl: "flip_vertical_recursive sh (QuadTreeNode x y w h lf pv cs) = Inr ?n'"
      using flip_vertical_internal [OF _ _ d0(1) d1(1) d2(1) d3(1), of "QuadTreeNode x y w h lf pv cs"]
        False cs l by simp
    have again: "flip_vertical_recursive sh ?n' = Inr (QuadTreeNode x y w h lf pv cs)"
      using flip_vertical_internal [OF _ _ d2(4) d3(4) d0(4) d1(4), of ?n']
        False cs l pv by simp
    have "quadrants (split_offset (fst (flip_y m)) w) (split_offset (snd (flip_y m)) h) ?n'
            [d2, d3, d0, d1]"
      using q d0(3) d1(3) d2(3) d3(3) unfolding l quadrants_def region_def flip_y_def split_offset_def
      by (auto split: if_splits)
    moreover have "flip_y m \<in> flip_y ` S" using m by simp
    ultimately have "tiled (flip_y ` S) ?n'"
      using wh d0(2) d1(2) d2(2) d3(2) by auto
    with fl again show ?thesis by (simp add: region_def)
  qed
qed

section \<open>Overlay keeps the invariant and is total on congruent trees\<close>

lemma upt4: "[0..<4] = [0, 1, 2, 3]"
  by (simp add: numeral_eq_Suc upt_rec)

lemma overlay_leaves:
  "is_leaf n1 \<Longrightarrow> is_leaf n2 \<Longrightarrow>
   overlay_recursive fl n1 n2 operation alpha =
     (case apply_overlay_operation fl (color_or_black n1) (color_or_black n2) operation alpha of
        Inl e \<Rightarrow> Inl e
      | Inr result_color \<Rightarrow>
          Inr (QuadTreeNode (node_x n1) (node_y n1) (width n1) (height n1) True
                 (Some result_color) None))"
  by (simp add: overlay_recursive.simps [of fl n1 n2 operation alpha])

lemma overlay_inner:
  "\<not> (is_leaf n1 \<and> is_leaf n2) \<Longrightarrow>
   overlay_recursive fl n1 n2 operation alpha =
     (case sequence_err (map (overlay_child fl n1 n2 operation alpha) [0, 1, 2, 3]) of
        Inl e \<Rightarrow> Inl e
      | Inr overlay_children \<Rightarrow>
          Inr (QuadTreeNode (node_x (expanded n1)) (node_y (expanded n1))
                 (width (expanded n1)) (height (expanded n1)) False None
                 (Some overlay_children)))"
proof -
  assume h: "\<not> (is_leaf n1 \<and> is_leaf n2)"
  have m: "map (overlay_child fl n1 n2 operation alpha) [0, 1, 2, 3] =
        map (\<lambda>i. if i < length (children_or_empty (expanded n1)) \<and>
                      i < length (children_or_empty (expanded n2))
                   then overlay_recursive fl (children_or_empty (expanded n1) ! i)
                          (children_or_empty (expanded n2) ! i) operation alpha
                   else Inl IndexError) [0..<4]"
    unfolding upt4 overlay_child_def by (rule refl)
  show ?thesis
    unfolding m by (subst overlay_recursive.simps) (simp only: h if_False)
qed

lemma sequence_err_Inl:
  "sequence_err rs = Inl e \<Longrightarrow> Inl e \<in> set rs"
  by (induction rs) (auto split: sum.splits)

lemma quadrants_region_cong:
  "region n = region n' \<Longrightarrow> map region cs = map region cs' \<Longrightarrow>
   quadrants mx my n cs \<Longrightarrow> quadrants mx my n' cs'"
  by (simp add: quadrants_def region_def)

lemma expanded_region: "region (expanded n) = region n"
  by (simp add: expanded_def expand_leaf_node_def region_def Let_def)

lemma expanded_nonempty:
  "tiled S n \<Longrightarrow> children_or_empty (expanded n) \<noteq> [] \<Longrightarrow> 1 < width n \<and> 1 < height n"
  by (cases n) (auto simp: expanded_def expand_leaf_node_def children_or_empty_def
                     split: if_splits)

lemma expanded_quadrants:
  assumes "tiled S n" "(False, False) \<in> S" "1 < width n" "1 < height n"
  shows "(\<exists>m\<in>S. quadrants (split_offset (fst m) (width n)) (split_offset (snd m) (height n)) n
                  (children_or_empty (expanded n))) \<and>
         (\<forall>c\<in>set (children_or_empty (expanded n)). tiled S c)"
proof (cases n)
  case (QuadTreeNode x y w h lf pv cs)
  show ?thesis
  proof (cases lf)
    case True
    have "quadrants (split_offset (fst (False, False)) (width n))
            (split_offset (snd (False, False)) (height n)) n (children_or_empty (expanded n))"
      using True assms(3,4) QuadTreeNode
      by (simp add: expanded_def expand_leaf_node_def children_or_empty_def Let_def
                    quadrants_def region_def split_offset_def)
    moreover have "\<forall>c\<in>set (children_or_empty (expanded n)). tiled S c"
      using True assms(3,4) QuadTreeNode
      by (simp add: expanded_def expand_leaf_node_def children_or_empty_def Let_def)
    ultimately show ?thesis using assms(2) by blast
  next
    case False
    with assms(1) QuadTreeNode show ?thesis
      by (auto simp: expanded_def children_or_empty_def split: option.splits)
  qed
qed

lemma overlay_children_results:
  assumes "sequence_err (map (overlay_child fl n1 n2 operation alpha) [0, 1, 2, 3]) = Inr rs"
  shows "\<exists>r0 r1 r2 r3.
           rs = [r0, r1, r2, r3] \<and>
           3 < length (children_or_empty (expanded n1)) \<and>
           3 < length (children_or_empty (expanded n2)) \<and>
           overlay_recursive fl (children_or_empty (expanded n1) ! 0)
             (children_or_empty (expanded n2) ! 0) operation alpha = Inr r0 \<and>
           overlay_recursive fl (children_or_empty (expanded n1) ! 1)
             (children_or_empty (expanded n2) ! 1) operation alpha = Inr r1 \<and>
           overlay_recursive fl (children_or_empty (expanded n1) ! 2)
             (children_or_empty (expanded n2) ! 2) operation alpha = Inr r2 \<and>
           overlay_recursive fl (children_or_empty (expanded n1) ! 3)
             (children_or_empty (expanded n2) ! 3) operation alpha = Inr r3"
proof -
  let ?l1 = "children_or_empty (expanded n1)" and ?l2 = "children_or_empty (expanded n2)"
  from assms have m: "map (overlay_child fl n1 n2 operation alpha) [0, 1, 2, 3] = map Inr rs"
    by (rule sequence_err_Inr [THEN iffD1])
  have "length (map (overlay_child fl n1 n2 operation alpha) [0, 1, 2, 3]) = 4" by simp
  then have "length rs = 4" unfolding m by simp
  then obtain r0 r1 r2 r3 where rs: "rs = [r0, r1, r2, r3]" by (auto simp: list4)
  from m rs have oc: "overlay_child fl n1 n2 operation alpha 0 = Inr r0"
    "overlay_child fl n1 n2 operation alpha 1 = Inr r1"
    "overlay_child fl n1 n2 operation alpha 2 = Inr r2"
    "overlay_child fl n1 n2 operation alpha 3 = Inr r3" by simp_all
  from oc(4) have len: "3 < length ?l1" "3 < length ?l2"
    by (auto simp: overlay_child_def split: if_splits)
  from oc len have "overlay_recursive fl (?l1 ! 0) (?l2 ! 0) operation alpha = Inr r0"
    "overlay_recursive fl (?l1 ! 1) (?l2 ! 1) operation alpha = Inr r1"
    "overlay_recursive fl (?l1 ! 2) (?l2 ! 2) operation alpha = Inr r2"
    "overlay_recursive fl (?l1 ! 3) (?l2 ! 3) operation alpha = Inr r3"
    by (auto simp: overlay_child_def split: if_splits)
  with rs len show ?thesis by blast
qed

lemma overlay_recursive_tiled:
  "overlay_recursive fl n1 n2 operation alpha = Inr r \<Longrightarrow> tiled S n1 \<Longrightarrow>
   (False, False) \<in> S \<Longrightarrow> tiled S r \<and> region r = region n1"
proof (induction fl n1 n2 operation alpha arbitrary: r rule: overlay_recursive.induct)
  case (1 fl n1 n2 operation alpha)
  let ?l1 = "children_or_empty (expanded n1)" and ?l2 = "children_or_empty (expanded n2)"
  show ?case
  proof (cases "is_leaf n1 \<and> is_leaf n2")
    case True
    with "1.prems"(1) show ?thesis
      by (auto simp: overlay_leaves region_def split: sum.splits)
  next
    case False
    with "1.prems"(1) obtain rs where
      seq: "sequence_err (map (overlay_child fl n1 n2 operation alpha) [0, 1, 2, 3]) = Inr rs"
      and r: "r = QuadTreeNode (node_x (expanded n1)) (node_y (expanded n1))
                (width (expanded n1)) (height (expanded n1)) False None (Some rs)"
      by (auto simp: overlay_inner split: sum.splits)
    from overlay_children_results [OF seq] obtain r0 r1 r2 r3 where
      rs: "rs = [r0, r1, r2, r3]" and len: "3 < length ?l1" "3 < length ?l2" and
      o0: "overlay_recursive fl (?l1 ! 0) (?l2 ! 0) operation alpha = Inr r0" and
      o1: "overlay_recursive fl (?l1 ! 1) (?l2 ! 1) operation alpha = Inr r1" and
      o2: "overlay_recursive fl (?l1 ! 2) (?l2 ! 2) operation alpha = Inr r2" and
      o3: "overlay_recursive fl (?l1 ! 3) (?l2 ! 3) operation alpha = Inr r3"
      by blast
    from len have "?l1 \<noteq> []" by auto
    with "1.prems"(2) have wh: "1 < width n1" "1 < height n1"
      using expanded_nonempty by blast+
    from expanded_quadrants [OF "1.prems"(2,3) wh] obtain m where m: "m \<in> S"
      and q: "quadrants (split_offset (fst m) (width n1)) (split_offset (snd m) (height n1))
                n1 ?l1"
      and ch: "\<forall>c\<in>set ?l1. tiled S c" by blast
    from q obtain a0 a1 a2 a3 where l1: "?l1 = [a0, a1, a2, a3]"
      using quadrants_list4 by blast
    have ih: "tiled S ri \<and> region ri = region (?l1 ! i)"
      if "i < 4" "overlay_recursive fl (?l1 ! i) (?l2 ! i) operation alpha = Inr ri" for i ri
    proof (rule "1.IH" [OF False _ _ that(2) _ "1.prems"(3)])
      show "i \<in> set [0..<4]" using that(1) by simp
      show "i < length ?l1 \<and> i < length ?l2" using that(1) len by simp
      show "tiled S (?l1 ! i)" using ch that(1) len by simp
    qed
    from ih [OF _ o0] ih [OF _ o1] ih [OF _ o2] ih [OF _ o3]
    have t: "tiled S r0" "tiled S r1" "tiled S r2" "tiled S r3"
      and rg: "region r0 = region a0" "region r1 = region a1" "region r2 = region a2"
        "region r3 = region a3"
      by (simp_all add: l1)
    have "quadrants (split_offset (fst m) (width n1)) (split_offset (snd m) (height n1)) r rs"
    proof (rule quadrants_region_cong [OF _ _ q])
      show "region n1 = region r" using expanded_region [of n1] by (simp add: r region_def)
      show "map region ?l1 = map region rs" by (simp add: l1 rs rg)
    qed
    moreover have "width r = width n1" "height r = height n1"
      using expanded_region [of n1] by (simp_all add: r region_def)
    ultimately have "tiled S r"
      using m wh t unfolding r rs by (auto simp del: expanded_def)
    moreover have "region r = region n1"
      using expanded_region [of n1] by (simp add: r region_def)
    ultimately show ?thesis by simp
  qed
qed

lemma leaves_of_leaf: "is_leaf n \<Longrightarrow> leaves_of n = [n]"
  by (cases n) (simp add: leaves_of_def)

lemma leaves_of_internal:
  "\<not> is_leaf n \<Longrightarrow> leaves_of n = concat (map leaves_of (children_or_empty n))"
  unfolding leaves_of_def
  by (cases n) (auto simp: children_or_empty_def filter_concat comp_def split: option.splits)

lemma leaf_colors_expanded:
  assumes "leaf_colors P n" "c \<in> set (children_or_empty (expanded n))" "tiled S n"
  shows "leaf_colors P c"
proof (cases "is_leaf n")
  case True
  with assms(1) have P: "P (color_or_black n)" by (simp add: leaf_colors_def leaves_of_leaf)
  from True assms(2,3) have "is_leaf c \<and> color_or_black c = color_or_black n"
    by (cases n)
       (auto simp: expanded_def expand_leaf_node_def children_or_empty_def Let_def
                   color_or_black_def copy_pixel_def split: if_splits option.splits)
  with P show ?thesis by (simp add: leaf_colors_def leaves_of_leaf)
next
  case False
  with assms show ?thesis
    by (auto simp: expanded_def leaf_colors_def leaves_of_internal list_all_iff)
qed

lemma broadcast2_not_IndexError: "broadcast2 f c1 c2 \<noteq> Inl IndexError"
  by (simp add: broadcast2_def)

lemma broadcast2_compatible:
  "length c1 = length c2 \<or> length c1 = 1 \<or> length c2 = 1 \<Longrightarrow> \<exists>r. broadcast2 f c1 c2 = Inr r"
  by (auto simp: broadcast2_def)

lemma overlay_recursive_total:
  "tiled {(False, False)} n1 \<Longrightarrow> tiled {(False, False)} n2 \<Longrightarrow> region n1 = region n2 \<Longrightarrow>
   overlay_recursive fl n1 n2 operation alpha \<noteq> Inl IndexError \<and>
   (leaf_colors (\<lambda>c. length c = k1) n1 \<longrightarrow> leaf_colors (\<lambda>c. length c = k2) n2 \<longrightarrow>
    k1 = k2 \<or> k1 = 1 \<or> k2 = 1 \<longrightarrow>
      (\<exists>r. overlay_recursive fl n1 n2 operation alpha = Inr r))"
proof (induction fl n1 n2 operation alpha rule: overlay_recursive.induct)
  case (1 fl n1 n2 operation alpha)
  let ?l1 = "children_or_empty (expanded n1)" and ?l2 = "children_or_empty (expanded n2)"
  let ?oc = "overlay_child fl n1 n2 operation alpha"
  show ?case
  proof (cases "is_leaf n1 \<and> is_leaf n2")
    case True
    then show ?thesis
      using broadcast2_not_IndexError
        [of "overlay_channel fl operation alpha" "color_or_black n1" "color_or_black n2"]
        broadcast2_compatible
        [of "color_or_black n1" "color_or_black n2" "overlay_channel fl operation alpha"]
      by (auto simp: overlay_leaves apply_overlay_operation_def leaf_colors_def leaves_of_leaf
               split: sum.splits)
  next
    case False
    have "1 < width n1 \<and> 1 < height n1"
    proof (cases "is_leaf n1")
      case False
      with "1.prems"(1) show ?thesis by (cases n1) simp
    next
      case True
      with False have "\<not> is_leaf n2" by simp
      with "1.prems"(2) have "1 < width n2 \<and> 1 < height n2" by (cases n2) simp
      with "1.prems"(3) show ?thesis by (simp add: region_def)
    qed
    then have wh1: "1 < width n1" "1 < height n1" and wh2: "1 < width n2" "1 < height n2"
      using "1.prems"(3) by (simp_all add: region_def)
    from expanded_quadrants [OF "1.prems"(1) _ wh1]
    have q1: "quadrants (width n1 div 2) (height n1 div 2) n1 ?l1"
      and ch1: "\<forall>c\<in>set ?l1. tiled {(False, False)} c"
      by (simp_all add: split_offset_def)
    from expanded_quadrants [OF "1.prems"(2) _ wh2]
    have q2: "quadrants (width n2 div 2) (height n2 div 2) n2 ?l2"
      and ch2: "\<forall>c\<in>set ?l2. tiled {(False, False)} c"
      by (simp_all add: split_offset_def)
    from q1 obtain a0 a1 a2 a3 where l1: "?l1 = [a0, a1, a2, a3]"
      using quadrants_list4 by blast
    from q2 obtain b0 b1 b2 b3 where l2: "?l2 = [b0, b1, b2, b3]"
      using quadrants_list4 by blast
    have len: "length ?l1 = 4" "length ?l2 = 4" by (simp_all add: l1 l2)
    have mem: "?l1 ! i \<in> set ?l1" "?l2 ! i \<in> set ?l2" if "i < 4" for i
      using that len by (simp_all del: set_simps)
    have rg: "map region ?l1 = map region ?l2"
      using q1 q2 "1.prems"(3) by (simp add: quadrants_def region_def)
    have ih: "overlay_recursive fl (?l1 ! i) (?l2 ! i) operation alpha \<noteq> Inl IndexError \<and>
        (leaf_colors (\<lambda>c. length c = k1) (?l1 ! i) \<longrightarrow>
         leaf_colors (\<lambda>c. length c = k2) (?l2 ! i) \<longrightarrow>
         k1 = k2 \<or> k1 = 1 \<or> k2 = 1 \<longrightarrow>
         (\<exists>r. overlay_recursive fl (?l1 ! i) (?l2 ! i) operation alpha = Inr r))"
      if "i < 4" for i
    proof (rule "1.IH" [OF False])
      show "i \<in> set [0..<4]" using that by simp
      show "i < length ?l1 \<and> i < length ?l2" using that by (simp add: l1 l2)
      from mem [OF that] show "tiled {(False, False)} (?l1 ! i)" "tiled {(False, False)} (?l2 ! i)"
        using ch1 ch2 by blast+
      have "map region ?l1 ! i = map region ?l2 ! i" using rg by simp
      moreover have "map region ?l1 ! i = region (?l1 ! i)" "map region ?l2 ! i = region (?l2 ! i)"
        using that len by (simp_all only: nth_map)
      ultimately show "region (?l1 ! i) = region (?l2 ! i)" by simp
    qed
    have oc: "?oc i = overlay_recursive fl (?l1 ! i) (?l2 ! i) operation alpha" if "i < 4" for i
      using that by (simp add: overlay_child_def l1 l2)
    have no_index: "overlay_recursive fl n1 n2 operation alpha \<noteq> Inl IndexError"
    proof
      assume "overlay_recursive fl n1 n2 operation alpha = Inl IndexError"
      then have "sequence_err (map ?oc [0, 1, 2, 3]) = Inl IndexError"
        by (auto simp: overlay_inner [OF False] split: sum.splits)
      then have "Inl IndexError \<in> set (map ?oc [0, 1, 2, 3])" by (rule sequence_err_Inl)
      then have "\<exists>i<4. ?oc i = Inl IndexError"
        by (auto intro: exI [of _ 0] exI [of _ 1] exI [of _ 2] exI [of _ 3])
      then obtain i where "i < 4" "?oc i = Inl IndexError" by blast
      with ih [of i] oc [of i] show False by simp
    qed
    have "\<exists>r. overlay_recursive fl n1 n2 operation alpha = Inr r"
      if c1: "leaf_colors (\<lambda>c. length c = k1) n1" and c2: "leaf_colors (\<lambda>c. length c = k2) n2"
        and k: "k1 = k2 \<or> k1 = 1 \<or> k2 = 1"
    proof -
      have "\<exists>r. ?oc i = Inr r" if "i < 4" for i
      proof -
        have "leaf_colors (\<lambda>c. length c = k1) (?l1 ! i)"
          by (rule leaf_colors_expanded [OF c1 mem(1) "1.prems"(1)]) (rule that)
        moreover have "leaf_colors (\<lambda>c. length c = k2) (?l2 ! i)"
          by (rule leaf_colors_expanded [OF c2 mem(2) "1.prems"(2)]) (rule that)
        ultimately show ?thesis using ih [OF that] oc [OF that] k by auto
      qed
      from this [of 0] this [of 1] this [of 2] this [of 3] obtain r0 r1 r2 r3 where
        "?oc 0 = Inr r0" "?oc 1 = Inr r1" "?oc 2 = Inr r2" "?oc 3 = Inr r3" by auto
      then have "sequence_err (map ?oc [0, 1, 2, 3]) = Inr [r0, r1, r2, r3]" by simp
      then show ?thesis by (simp add: overlay_inner [OF False])
    qed
    with no_index show ?thesis by blast
  qed
qed

section \<open>The trees the core produces\<close>

lemma tiled_mono: "tiled S n \<Longrightarrow> S \<subseteq> S' \<Longrightarrow> tiled S' n"
proof (induction n)
  case (QuadTreeNode x y w h lf pv cs)
  show ?case
  proof (cases lf)
    case True
    with QuadTreeNode.prems show ?thesis by simp
  next
    case False
    with QuadTreeNode.prems(1) obtain l where cs: "cs = Some l" by (auto split: option.splits)
    have "tiled S' c" if "c \<in> set l" for c
      using QuadTreeNode.IH [of l c] QuadTreeNode.prems False cs that by simp
    with QuadTreeNode.prems False cs show ?thesis by auto
  qed
qed

lemma tiled_nodes: "tiled S n \<Longrightarrow> m \<in> set (nodes_of n) \<Longrightarrow> tiled S m"
proof (induction n)
  case (QuadTreeNode x y w h lf pv cs)
  show ?case
  proof (cases "m = QuadTreeNode x y w h lf pv cs")
    case True
    with QuadTreeNode.prems show ?thesis by simp
  next
    case False
    with QuadTreeNode.prems(2) obtain l c where "\<not> lf" "cs = Some l" "c \<in> set l"
      "m \<in> set (nodes_of c)"
      by (auto split: if_splits option.splits)
    with QuadTreeNode.IH [of l c] QuadTreeNode.prems(1) show ?thesis by simp
  qed
qed

lemma QuadTree_init_tiled:
  "QuadTree_init fl std_lt img thr = Inr t \<Longrightarrow>
   tiled {(False, False)} (tree_root t) \<and>
   region (tree_root t) = (0, 0, int (cols img), int (rows img)) \<and>
   threshold t = thr \<and> shape_rows t = rows img \<and> shape_cols t = cols img \<and>
   shape_chans t = chans img"
  by (auto simp: QuadTree_init_def split: sum.splits dest: build_tree_tiled)

lemma tiled_internal_quadrants:
  "tiled S m \<Longrightarrow> \<not> is_leaf m \<Longrightarrow>
   \<exists>cs. children m = Some cs \<and>
        (\<exists>b\<in>S. quadrants (split_offset (fst b) (width m)) (split_offset (snd b) (height m)) m cs)"
  by (cases m) (auto split: option.splits)

lemma produced_tiled: "produced fl std_lt t \<Longrightarrow> tiled UNIV (tree_root t)"
proof (induction rule: produced.induct)
  case (built img thr t)
  then show ?case using QuadTree_init_tiled tiled_mono by blast
next
  case (flipped_horizontal t t')
  then show ?case
    using flip_horizontal_tiled [of UNIV "tree_root t" "shape_cols t"]
    by (auto simp: flip_horizontal_def split: sum.splits intro: tiled_mono)
next
  case (flipped_vertical t t')
  then show ?case
    using flip_vertical_tiled [of UNIV "tree_root t" "shape_rows t"]
    by (auto simp: flip_vertical_def split: sum.splits intro: tiled_mono)
next
  case (overlaid t1 t2 operation alpha t')
  then show ?case
    using overlay_recursive_tiled [of fl "tree_root t1" "tree_root t2" operation alpha _ UNIV]
    by (auto simp: overlay_def split: sum.splits)
qed

lemma to_dict_keys_tiled:
  "tiled S m \<Longrightarrow>
   keys (to_dict m) =
     [''x'', ''y'', ''width'', ''height'', ''is_leaf'', ''pixel_value''] @
     (if is_leaf m then [] else [''children''])"
proof (cases m)
  case (QuadTreeNode x y w h lf pv cs)
  assume t: "tiled S m"
  show ?thesis
  proof (cases lf)
    case True
    with t QuadTreeNode show ?thesis by (simp add: keys_def)
  next
    case False
    with t QuadTreeNode obtain l where "cs = Some l" by (auto split: option.splits)
    moreover with t QuadTreeNode False have "l \<noteq> []" using quadrants_list4 by fastforce
    ultimately show ?thesis using QuadTreeNode False by (simp add: keys_def)
  qed
qed

section \<open>The JSON snapshot of a produced tree\<close>

lemma example_3x2_built:
  "QuadTree_init (\<lambda>x. x) std_lt_exact example_3x2 0 = Inr example_3x2_tree"
  by code_simp

lemma to_dict_pixel_value:
  "map_of (items (to_dict m)) ''pixel_value'' =
     Some (case pixel_value m of None \<Rightarrow> JNone | Some l \<Rightarrow> JList (map JInt l))"
  by (cases m) simp

text \<open>
  C8 (amended). In the snapshot of a tree the core produces, every node's dictionary has
  the keys x, y, width, height, is_leaf and pixel_value, in this order. A leaf's
  dictionary has no key children. An internal node's dictionary has the key children
  after them, and its pixel_value is present with the value None (null).
\<close>

theorem snapshot_fields:
  assumes "produced fl std_lt t" and "m \<in> set (nodes_of (tree_root t))"
  shows "keys (to_dict m) =
           [''x'', ''y'', ''width'', ''height'', ''is_leaf'', ''pixel_value''] @
           (if is_leaf m then [] else [''children'']) \<and>
         (is_leaf m \<or> map_of (items (to_dict m)) ''pixel_value'' = Some JNone)"
proof -
  from assms have t: "tiled UNIV m" using produced_tiled tiled_nodes by blast
  then have "is_leaf m \<or> pixel_value m = None" by (cases m) (auto split: if_splits)
  then have "is_leaf m \<or> map_of (items (to_dict m)) ''pixel_value'' = Some JNone"
    by (auto simp: to_dict_pixel_value)
  with to_dict_keys_tiled [OF t] show ?thesis by simp
qed

theorem snapshot_fields_witness:
  "produced (\<lambda>x. x) std_lt_exact example_3x2_tree \<and>
   tree_root example_3x2_tree \<in> set (nodes_of (tree_root example_3x2_tree)) \<and>
   keys (to_dict (tree_root example_3x2_tree)) =
     [''x'', ''y'', ''width'', ''height'', ''is_leaf'', ''pixel_value'', ''children''] \<and>
   map_of (items (to_dict (tree_root example_3x2_tree))) ''pixel_value'' = Some JNone"
proof -
  have p: "produced (\<lambda>x. x) std_lt_exact example_3x2_tree"
    by (rule produced.built [OF example_3x2_built])
  have m: "tree_root example_3x2_tree \<in> set (nodes_of (tree_root example_3x2_tree))"
    by (simp add: example_3x2_tree_def)
  have l: "\<not> is_leaf (tree_root example_3x2_tree)"
    by (simp add: example_3x2_tree_def)
  from snapshot_fields [OF p m] l p m show ?thesis by simp
qed

text \<open>
  The root of the example tree is an internal node, and its dictionary has the key
  pixel_value.
\<close>

theorem snapshot_internal_pixel_value_counterexample:
  "QuadTree_init (\<lambda>x. x) std_lt_exact example_3x2 0 = Inr example_3x2_tree \<and>
   \<not> is_leaf (tree_root example_3x2_tree) \<and>
   ''pixel_value'' \<in> set (keys (to_dict (tree_root example_3x2_tree)))"
  by code_simp

section \<open>Flips are involutions\<close>

lemma flip_horizontal_involution:
  assumes "tiled S (tree_root t)"
  shows "\<exists>t'. flip_horizontal t = Inr t' \<and> flip_horizontal t' = Inr t \<and>
              tiled (flip_x ` S) (tree_root t')"
proof -
  from flip_horizontal_tiled [OF assms, of "shape_cols t"] obtain n' where
    n': "flip_horizontal_recursive (shape_cols t) (tree_root t) = Inr n'"
      "flip_horizontal_recursive (shape_cols t) n' = Inr (tree_root t)"
      "tiled (flip_x ` S) n'" by blast
  then have "flip_horizontal t = Inr (t\<lparr>tree_root := n'\<rparr>)"
    "flip_horizontal (t\<lparr>tree_root := n'\<rparr>) = Inr t"
    by (simp_all add: flip_horizontal_def)
  with n'(3) show ?thesis by simp
qed

lemma flip_vertical_involution:
  assumes "tiled S (tree_root t)"
  shows "\<exists>t'. flip_vertical t = Inr t' \<and> flip_vertical t' = Inr t \<and>
              tiled (flip_y ` S) (tree_root t')"
proof -
  from flip_vertical_tiled [OF assms, of "shape_rows t"] obtain n' where
    n': "flip_vertical_recursive (shape_rows t) (tree_root t) = Inr n'"
      "flip_vertical_recursive (shape_rows t) n' = Inr (tree_root t)"
      "tiled (flip_y ` S) n'" by blast
  then have "flip_vertical t = Inr (t\<lparr>tree_root := n'\<rparr>)"
    "flip_vertical (t\<lparr>tree_root := n'\<rparr>) = Inr t"
    by (simp_all add: flip_vertical_def)
  with n'(3) show ?thesis by simp
qed

text \<open>
  C4. Both flips are involutions on every tree the core produces, the trees built from
  a raster among them: the flip returns a tree, and flipping that tree again returns the
  original one, equal in every field of every node.
\<close>

theorem flips_are_involutions:
  assumes "produced fl std_lt t"
  shows "(\<exists>t'. flip_horizontal t = Inr t' \<and> flip_horizontal t' = Inr t) \<and>
         (\<exists>t'. flip_vertical t = Inr t' \<and> flip_vertical t' = Inr t)"
  using flip_horizontal_involution [OF produced_tiled [OF assms]]
    flip_vertical_involution [OF produced_tiled [OF assms]] by blast

theorem flips_are_involutions_witness:
  "QuadTree_init (\<lambda>x. x) std_lt_exact example_3x2 0 = Inr example_3x2_tree \<and>
   flip_horizontal example_3x2_tree = Inr example_3x2_flipped \<and>
   flip_horizontal example_3x2_flipped = Inr example_3x2_tree \<and>
   (\<exists>t'. flip_vertical example_3x2_tree = Inr t' \<and> flip_vertical t' = Inr example_3x2_tree)"
proof -
  have b: "QuadTree_init (\<lambda>x. x) std_lt_exact example_3x2 0 = Inr example_3x2_tree"
    by (rule example_3x2_built)
  have f: "flip_horizontal example_3x2_tree = Inr example_3x2_flipped" by code_simp
  from flips_are_involutions [OF produced.built [OF b]] b f show ?thesis by auto
qed

section \<open>The split of internal nodes\<close>

lemma tiled_split_everywhere: "tiled {(mx, my)} n \<Longrightarrow> split_everywhere mx my n"
  unfolding split_everywhere_def list_all_iff
proof
  fix m assume t: "tiled {(mx, my)} n" and m: "m \<in> set (nodes_of n)"
  show "is_leaf m \<or> (case children m of None \<Rightarrow> False
      | Some cs \<Rightarrow> quadrants (split_offset mx (width m)) (split_offset my (height m)) m cs)"
    using tiled_internal_quadrants [OF tiled_nodes [OF t m]] by (cases "is_leaf m") auto
qed

lemma tiled_quartered:
  "tiled S n \<Longrightarrow> list_all (\<lambda>m. is_leaf m \<or> quartered m) (nodes_of n)"
  unfolding list_all_iff
proof
  fix m assume t: "tiled S n" and m: "m \<in> set (nodes_of n)"
  show "is_leaf m \<or> quartered m"
  proof (cases "is_leaf m")
    case False
    from tiled_internal_quadrants [OF tiled_nodes [OF t m] False] obtain cs b where
      "children m = Some cs"
      "quadrants (split_offset (fst b) (width m)) (split_offset (snd b) (height m)) m cs"
      by blast
    then have "quartered m"
      by (cases "fst b"; cases "snd b") (auto simp: quartered_def)
    then show ?thesis ..
  qed simp
qed

text \<open>
  C1 (amended). In every tree the core produces, every internal node has exactly four
  children whose regions are NW=(x,y,mid_x,mid_y), NE=(x+mid_x,y,width-mid_x,mid_y),
  SW=(x,y+mid_y,mid_x,height-mid_y), SE=(x+mid_x,y+mid_y,width-mid_x,height-mid_y), where
  mid_x is width div 2 or its mirror image width - width div 2, and mid_y is height div 2
  or height - height div 2. In a tree built from a raster, and in the overlay of a built
  tree with any tree, mid_x = width div 2 and mid_y = height div 2 at every internal
  node; in the horizontal flip of a built tree mid_x = width - width div 2 and
  mid_y = height div 2; in its vertical flip mid_x = width div 2 and
  mid_y = height - height div 2.
\<close>

theorem internal_nodes_split:
  "(produced fl std_lt t \<longrightarrow>
      list_all (\<lambda>m. is_leaf m \<or> quartered m) (nodes_of (tree_root t))) \<and>
   (QuadTree_init fl std_lt img thr = Inr b \<longrightarrow>
      split_everywhere False False (tree_root b) \<and>
      (\<exists>b'. flip_horizontal b = Inr b' \<and> split_everywhere True False (tree_root b')) \<and>
      (\<exists>b'. flip_vertical b = Inr b' \<and> split_everywhere False True (tree_root b')) \<and>
      (\<forall>other operation alpha b'. overlay fl b other operation alpha = Inr b' \<longrightarrow>
         split_everywhere False False (tree_root b')))"
proof (intro conjI impI allI)
  assume "produced fl std_lt t"
  then show "list_all (\<lambda>m. is_leaf m \<or> quartered m) (nodes_of (tree_root t))"
    using produced_tiled tiled_quartered by blast
next
  assume b: "QuadTree_init fl std_lt img thr = Inr b"
  then have t: "tiled {(False, False)} (tree_root b)" using QuadTree_init_tiled by blast
  then show "split_everywhere False False (tree_root b)" by (rule tiled_split_everywhere)
  from flip_horizontal_involution [OF t]
  show "\<exists>b'. flip_horizontal b = Inr b' \<and> split_everywhere True False (tree_root b')"
    by (auto simp: flip_x_def intro: tiled_split_everywhere)
  from flip_vertical_involution [OF t]
  show "\<exists>b'. flip_vertical b = Inr b' \<and> split_everywhere False True (tree_root b')"
    by (auto simp: flip_y_def intro: tiled_split_everywhere)
  fix other operation alpha b'
  assume "overlay fl b other operation alpha = Inr b'"
  then obtain r where "overlay_recursive fl (tree_root b) (tree_root other) operation alpha = Inr r"
    "tree_root b' = r"
    by (auto simp: overlay_def split: sum.splits)
  with overlay_recursive_tiled [OF _ t, of fl "tree_root other" operation alpha r]
  show "split_everywhere False False (tree_root b')"
    by (auto intro: tiled_split_everywhere)
qed

theorem internal_nodes_split_witness:
  "produced (\<lambda>x. x) std_lt_exact example_3x2_flipped \<and>
   quartered (tree_root example_3x2_flipped) \<and>
   QuadTree_init (\<lambda>x. x) std_lt_exact example_3x2 0 = Inr example_3x2_tree \<and>
   split_everywhere False False (tree_root example_3x2_tree) \<and>
   flip_horizontal example_3x2_tree = Inr example_3x2_flipped \<and>
   split_everywhere True False (tree_root example_3x2_flipped)"
proof -
  have b: "QuadTree_init (\<lambda>x. x) std_lt_exact example_3x2 0 = Inr example_3x2_tree"
    by (rule example_3x2_built)
  have f: "flip_horizontal example_3x2_tree = Inr example_3x2_flipped" by code_simp
  have p: "produced (\<lambda>x. x) std_lt_exact example_3x2_flipped"
    by (rule produced.flipped_horizontal [OF produced.built [OF b] f])
  have q: "quartered (tree_root example_3x2_flipped)"
    using internal_nodes_split [of "\<lambda>x. x" std_lt_exact example_3x2_flipped] p
    by (simp add: example_3x2_flipped_def)
  have s: "split_everywhere False False (tree_root example_3x2_tree) \<and>
      (\<exists>b'. flip_horizontal example_3x2_tree = Inr b' \<and>
            split_everywhere True False (tree_root b'))"
    using internal_nodes_split [of "\<lambda>x. x" std_lt_exact _ example_3x2 0 example_3x2_tree] b
    by blast
  with f have "split_everywhere True False (tree_root example_3x2_flipped)" by simp
  with b f p q s show ?thesis by blast
qed

text \<open>
  The horizontal flip of the tree built from the raster of three columns: the root is
  three pixels wide, and its new NW child is two pixels wide, not 3 div 2 = 1.
\<close>

theorem flip_horizontal_floor_split_counterexample:
  "QuadTree_init (\<lambda>x. x) std_lt_exact example_3x2 0 = Inr example_3x2_tree \<and>
   flip_horizontal example_3x2_tree = Inr example_3x2_flipped \<and>
   \<not> split_everywhere False False (tree_root example_3x2_flipped)"
  by code_simp

section \<open>Children tile their parent\<close>

lemma pixels_region:
  "region n = (x, y, w, h) \<Longrightarrow> pixels n = {(c, r). x \<le> c \<and> c < x + w \<and> y \<le> r \<and> r < y + h}"
  by (simp add: region_def pixels_def)

lemma quadrants_tiles:
  assumes q: "quadrants mx my n cs" and b: "0 \<le> mx" "mx \<le> width n" "0 \<le> my" "my \<le> height n"
  shows "tiles n cs"
proof -
  from q obtain nw ne sw se where cs: "cs = [nw, ne, sw, se]" using quadrants_list4 by blast
  from q cs have r: "region nw = (node_x n, node_y n, mx, my)"
    "region ne = (node_x n + mx, node_y n, width n - mx, my)"
    "region sw = (node_x n, node_y n + my, mx, height n - my)"
    "region se = (node_x n + mx, node_y n + my, width n - mx, height n - my)"
    by (simp_all add: quadrants_def)
  note p = pixels_region [OF r(1)] pixels_region [OF r(2)] pixels_region [OF r(3)]
    pixels_region [OF r(4)]
  have d: "pixels nw \<inter> pixels ne = {}" "pixels nw \<inter> pixels sw = {}"
    "pixels nw \<inter> pixels se = {}" "pixels ne \<inter> pixels sw = {}"
    "pixels ne \<inter> pixels se = {}" "pixels sw \<inter> pixels se = {}"
    unfolding p by auto
  have s: "pixels nw \<subseteq> pixels n" "pixels ne \<subseteq> pixels n" "pixels sw \<subseteq> pixels n"
    "pixels se \<subseteq> pixels n"
    unfolding p using b by (auto simp: pixels_def)
  have u: "pixels nw \<union> pixels ne \<union> pixels sw \<union> pixels se = pixels n"
    unfolding p using b by (auto simp: pixels_def)
  from cs d s u show ?thesis unfolding tiles_def by blast
qed

lemma split_offset_bounds: "1 < w \<Longrightarrow> 0 < split_offset b w \<and> split_offset b w < w"
  by (auto simp: split_offset_def)

lemma tiled_internal_tiles:
  assumes "tiled S m" "\<not> is_leaf m"
  shows "\<exists>cs. children m = Some cs \<and> tiles m cs"
proof -
  from tiled_internal_quadrants [OF assms] obtain cs b where cs: "children m = Some cs"
    and q: "quadrants (split_offset (fst b) (width m)) (split_offset (snd b) (height m)) m cs"
    by blast
  from assms have "1 < width m" "1 < height m" by (cases m; simp)+
  then have "tiles m cs"
    using split_offset_bounds [of "width m" "fst b"] split_offset_bounds [of "height m" "snd b"]
    by (intro quadrants_tiles [OF q]) simp_all
  with cs show ?thesis by blast
qed

text \<open>
  C2. In every tree the core produces (built, flipped or overlaid), every internal node
  has four children whose regions are pairwise disjoint, lie inside the node's region and
  have the node's region as their union.
\<close>

theorem children_tile_parent:
  assumes "produced fl std_lt t" and "m \<in> set (nodes_of (tree_root t))" and "\<not> is_leaf m"
  shows "\<exists>cs. children m = Some cs \<and> tiles m cs"
  using tiled_internal_tiles [OF tiled_nodes [OF produced_tiled [OF assms(1)] assms(2)] assms(3)] .

theorem children_tile_parent_witness:
  "produced (\<lambda>x. x) std_lt_exact example_3x2_flipped \<and>
   tree_root example_3x2_flipped \<in> set (nodes_of (tree_root example_3x2_flipped)) \<and>
   \<not> is_leaf (tree_root example_3x2_flipped) \<and>
   (\<exists>cs. children (tree_root example_3x2_flipped) = Some cs \<and>
         tiles (tree_root example_3x2_flipped) cs)"
proof -
  have b: "QuadTree_init (\<lambda>x. x) std_lt_exact example_3x2 0 = Inr example_3x2_tree"
    by (rule example_3x2_built)
  have f: "flip_horizontal example_3x2_tree = Inr example_3x2_flipped" by code_simp
  have p: "produced (\<lambda>x. x) std_lt_exact example_3x2_flipped"
    by (rule produced.flipped_horizontal [OF produced.built [OF b] f])
  have m: "tree_root example_3x2_flipped \<in> set (nodes_of (tree_root example_3x2_flipped))"
    by (simp add: example_3x2_flipped_def)
  have l: "\<not> is_leaf (tree_root example_3x2_flipped)"
    by (simp add: example_3x2_flipped_def)
  from children_tile_parent [OF p m l] p m l show ?thesis by blast
qed

section \<open>An unrecognized operation falls back to blend\<close>

lemma example_flat_built:
  "QuadTree_init (\<lambda>x. x) std_lt_exact example_flat 10 = Inr example_flat_tree"
  by code_simp

lemma example_blend_overlay:
  "overlay (\<lambda>x. x) example_3x2_tree example_flat_tree ''blend'' (1 / 2) = Inr example_blend"
  by code_simp

lemma overlay_channel_unrecognized:
  "operation \<notin> set valid_operations \<Longrightarrow>
   overlay_channel fl operation alpha = overlay_channel fl ''blend'' alpha"
  by (auto simp: overlay_channel_def valid_operations_def fun_eq_iff)

lemma overlay_recursive_unrecognized:
  "operation \<notin> set valid_operations \<Longrightarrow>
   overlay_recursive fl n1 n2 operation alpha = overlay_recursive fl n1 n2 ''blend'' alpha"
proof (induction fl n1 n2 operation alpha rule: overlay_recursive.induct)
  case (1 fl n1 n2 operation alpha)
  show ?case
  proof (cases "is_leaf n1 \<and> is_leaf n2")
    case True
    then show ?thesis
      using overlay_channel_unrecognized [OF "1.prems"]
      by (simp add: overlay_leaves apply_overlay_operation_def)
  next
    case False
    have "overlay_child fl n1 n2 operation alpha i = overlay_child fl n1 n2 ''blend'' alpha i"
      if "i < 4" for i
      using "1.IH" [OF False _ _ "1.prems", of i] that by (simp add: overlay_child_def)
    then have "map (overlay_child fl n1 n2 operation alpha) [0, 1, 2, 3] =
               map (overlay_child fl n1 n2 ''blend'' alpha) [0, 1, 2, 3]" by simp
    then show ?thesis by (simp only: overlay_inner [OF False])
  qed
qed

text \<open>
  C6 (amended). For every operation tag outside blend, add, multiply, screen, the overlay
  computation of the core does not reject the request: \<open>_apply_overlay_operation\<close>,
  \<open>_overlay_recursive\<close> and \<open>overlay\<close> return exactly what they return for the tag
  blend. Such a tag is rejected only by the request handler \<open>overlay_images\<close>, whose
  check against \<open>valid_operations\<close> raises an HTTPException before anything is
  processed (the handler's own \<open>except\<close> clause turns its status 400 into 500).
\<close>

theorem unrecognized_operation_blends:
  assumes "operation \<notin> set valid_operations"
  shows "apply_overlay_operation fl c1 c2 operation alpha =
           apply_overlay_operation fl c1 c2 ''blend'' alpha \<and>
         overlay_recursive fl n1 n2 operation alpha =
           overlay_recursive fl n1 n2 ''blend'' alpha \<and>
         overlay fl t1 t2 operation alpha = overlay fl t1 t2 ''blend'' alpha \<and>
         overlay_images_checks file1_is_image file2_is_image operation alpha =
           Inl (HTTPException 400) \<and>
         overlay_images_endpoint file1_is_image file2_is_image operation alpha process =
           Inl (HTTPException 500)"
  using assms overlay_channel_unrecognized [OF assms, of fl alpha]
    overlay_recursive_unrecognized [OF assms]
  by (simp add: apply_overlay_operation_def overlay_def overlay_images_checks_def
        overlay_images_endpoint_def)

theorem unrecognized_operation_blends_witness:
  "''darken'' \<notin> set valid_operations \<and>
   overlay (\<lambda>x. x) example_3x2_tree example_flat_tree ''darken'' (1 / 2) = Inr example_blend \<and>
   overlay_images_endpoint True True ''darken'' (1 / 2)
     (overlay (\<lambda>x. x) example_3x2_tree example_flat_tree) = Inl (HTTPException 500)"
proof -
  have v: "''darken'' \<notin> set valid_operations" by (simp add: valid_operations_def)
  from unrecognized_operation_blends [OF v, where fl = "\<lambda>x. x" and ?t1.0 = example_3x2_tree
      and ?t2.0 = example_flat_tree and alpha = "1 / 2" and ?file1_is_image.0 = True
      and ?file2_is_image.0 = True
      and process = "overlay (\<lambda>x. x) example_3x2_tree example_flat_tree"]
    v example_blend_overlay
  show ?thesis by simp
qed

text \<open>
  The overlay of the two example trees with the tag darken: no error, but the tree of
  the blend formula.
\<close>

theorem unrecognized_operation_counterexample:
  "''darken'' \<notin> set valid_operations \<and>
   QuadTree_init (\<lambda>x. x) std_lt_exact example_3x2 0 = Inr example_3x2_tree \<and>
   QuadTree_init (\<lambda>x. x) std_lt_exact example_flat 10 = Inr example_flat_tree \<and>
   overlay (\<lambda>x. x) example_3x2_tree example_flat_tree ''darken'' (1 / 2) = Inr example_blend \<and>
   overlay (\<lambda>x. x) example_3x2_tree example_flat_tree ''blend'' (1 / 2) = Inr example_blend"
  by code_simp

section \<open>Overlay of built trees\<close>

lemma build_tree_leaves:
  assumes "build_tree fl std_lt thr img x y w h = Inr n"
    and "\<forall>x y px. getitem img y x = Inr px \<longrightarrow> P (pixel_list img px)"
    and "\<forall>x y w h avg. get_average_color fl img x y w h = Inr avg \<longrightarrow> P avg"
  shows "\<forall>m\<in>set (leaves_of n). \<exists>l. pixel_value m = Some l \<and> P l"
  using assms
proof (induction fl std_lt thr img x y w h arbitrary: n rule: build_tree.induct)
  case (1 fl std_lt thr img x y w h)
  note getitem_P = "1.prems"(2) and average_P = "1.prems"(3)
  show ?case
  proof (cases "w \<le> 1 \<or> h \<le> 1")
    case True
    with "1.prems"(1) getitem_P show ?thesis
      by (auto simp: build_tree.simps [of fl std_lt thr img x y w h] leaves_of_leaf
               split: sum.splits)
  next
    case small: False
    show ?thesis
    proof (cases "is_homogeneous std_lt thr img x y w h")
      case True
      with small "1.prems"(1) average_P show ?thesis
        by (auto simp: build_tree.simps [of fl std_lt thr img x y w h] leaves_of_leaf
                 split: sum.splits)
    next
      case False
      from small False "1.prems"(1) obtain nw ne sw se where
        nw: "build_tree fl std_lt thr img x y (w div 2) (h div 2) = Inr nw" and
        ne: "build_tree fl std_lt thr img (x + w div 2) y (w - w div 2) (h div 2) = Inr ne" and
        sw: "build_tree fl std_lt thr img x (y + h div 2) (w div 2) (h - h div 2) = Inr sw" and
        se: "build_tree fl std_lt thr img (x + w div 2) (y + h div 2) (w - w div 2) (h - h div 2) = Inr se" and
        n: "n = QuadTreeNode x y w h False None (Some [nw, ne, sw, se])"
        by (auto simp: build_tree.simps [of fl std_lt thr img x y w h] split: sum.splits)
      note ih = "1.IH"(1)[OF small False nw getitem_P average_P]
        "1.IH"(2)[OF small False nw ne getitem_P average_P]
        "1.IH"(3)[OF small False nw ne sw getitem_P average_P]
        "1.IH"(4)[OF small False nw ne sw se getitem_P average_P]
      from ih show ?thesis
        by (auto simp: n leaves_of_internal children_or_empty_def)
    qed
  qed
qed

lemma getitem_length:
  "getitem img y x = Inr px \<Longrightarrow> length px = (case chans img of None \<Rightarrow> 1 | Some c \<Rightarrow> c)"
  by (auto simp: getitem_def channels_def split: sum.splits option.splits)

lemma pixel_list_length:
  "getitem img y x = Inr px \<Longrightarrow>
   length (pixel_list img px) = (case chans img of None \<Rightarrow> 3 | Some c \<Rightarrow> c)"
  using getitem_length [of img y x px]
  by (auto simp: pixel_list_def split: option.splits list.splits)

lemma sequence_err_length: "sequence_err rs = Inr vs \<Longrightarrow> length vs = length rs"
  by (simp add: sequence_err_Inr)

lemma get_average_color_length:
  "get_average_color fl img x y w h = Inr avg \<Longrightarrow>
   length avg = (case chans img of None \<Rightarrow> 3 | Some c \<Rightarrow> c)"
  by (auto simp: get_average_color_def split: option.splits sum.splits
           dest: sequence_err_length)

lemma build_tree_leaf_colors:
  assumes "build_tree fl std_lt thr img x y w h = Inr n"
  shows "leaf_colors (\<lambda>c. length c = color_length (chans img)) n"
proof -
  have "\<forall>m\<in>set (leaves_of n). \<exists>l. pixel_value m = Some l \<and>
          length l = (case chans img of None \<Rightarrow> 3 | Some c \<Rightarrow> c)"
    by (rule build_tree_leaves [OF assms]) (auto simp: pixel_list_length get_average_color_length)
  then show ?thesis
    by (fastforce simp: leaf_colors_def list_all_iff color_or_black_def color_length_def
                  split: option.splits)
qed

lemma visits_congruent:
  assumes "visits n1 n2 p q" "tiled {(False, False)} n1" "tiled {(False, False)} n2"
    "region n1 = region n2"
  shows "tiled {(False, False)} p \<and> tiled {(False, False)} q \<and> region p = region q"
  using assms
proof (induction rule: visits.induct)
  case start
  then show ?case by simp
next
  case (step p q i)
  let ?l1 = "children_or_empty (expanded p)" and ?l2 = "children_or_empty (expanded q)"
  from step have t: "tiled {(False, False)} p" "tiled {(False, False)} q"
    and r: "region p = region q" by simp_all
  from step.hyps(4) have "?l1 \<noteq> []" by auto
  then have "1 < width p \<and> 1 < height p"
    using expanded_nonempty [OF t(1)] by simp
  then have wh1: "1 < width p" "1 < height p" and wh2: "1 < width q" "1 < height q"
    using r by (simp_all add: region_def)
  from expanded_quadrants [OF t(1) _ wh1]
  have q1: "quadrants (width p div 2) (height p div 2) p ?l1"
    and ch1: "\<forall>c\<in>set ?l1. tiled {(False, False)} c"
    by (simp_all add: split_offset_def)
  from expanded_quadrants [OF t(2) _ wh2]
  have q2: "quadrants (width q div 2) (height q div 2) q ?l2"
    and ch2: "\<forall>c\<in>set ?l2. tiled {(False, False)} c"
    by (simp_all add: split_offset_def)
  have rg: "map region ?l1 = map region ?l2"
    using q1 q2 r by (simp add: quadrants_def region_def)
  have "map region ?l1 ! i = map region ?l2 ! i" using rg by simp
  moreover have "map region ?l1 ! i = region (?l1 ! i)" "map region ?l2 ! i = region (?l2 ! i)"
    using step.hyps(4,5) by (simp_all only: nth_map)
  ultimately have "region (?l1 ! i) = region (?l2 ! i)" by simp
  moreover have "?l1 ! i \<in> set ?l1" "?l2 ! i \<in> set ?l2"
    using step.hyps(4,5) by (simp_all del: set_simps)
  ultimately show ?case using ch1 ch2 by blast
qed

lemma congruent_pair_safe:
  assumes t: "tiled {(False, False)} p" "tiled {(False, False)} q" and r: "region p = region q"
  shows "\<not> (is_leaf p \<and> \<not> is_leaf q \<and> (width p \<le> 1 \<or> height p \<le> 1)) \<and>
         \<not> (is_leaf q \<and> \<not> is_leaf p \<and> (width q \<le> 1 \<or> height q \<le> 1)) \<and>
         (is_leaf p \<and> is_leaf q \<or>
          length (children_or_empty (expanded p)) = 4 \<and>
          length (children_or_empty (expanded q)) = 4)"
proof -
  have i1: "1 < width p \<and> 1 < height p" if "\<not> is_leaf p" using t(1) that by (cases p) simp
  have i2: "1 < width q \<and> 1 < height q" if "\<not> is_leaf q" using t(2) that by (cases q) simp
  have both: "1 < width p \<and> 1 < height p \<and> 1 < width q \<and> 1 < height q"
    if "\<not> (is_leaf p \<and> is_leaf q)"
    using that i1 i2 r by (auto simp: region_def)
  have "length (children_or_empty (expanded p)) = 4 \<and> length (children_or_empty (expanded q)) = 4"
    if nl: "\<not> (is_leaf p \<and> is_leaf q)"
  proof -
    from both [OF nl] expanded_quadrants [OF t(1), of ] expanded_quadrants [OF t(2)]
    obtain m m' where
      "quadrants m m' p (children_or_empty (expanded p))" by auto
    moreover from both [OF nl] expanded_quadrants [OF t(2)]
    obtain k k' where
      "quadrants k k' q (children_or_empty (expanded q))" by auto
    ultimately show ?thesis using quadrants_list4 by fastforce
  qed
  with both show ?thesis by force
qed

lemma overlay_built_total:
  assumes a: "QuadTree_init fl std_lt img1 thr1 = Inr a"
    and b: "QuadTree_init fl std_lt img2 thr2 = Inr b"
    and s: "rows img1 = rows img2" "cols img1 = cols img2"
  shows "overlay fl a b operation alpha \<noteq> Inl IndexError \<and>
         (broadcastable (color_length (chans img1)) (color_length (chans img2)) \<longrightarrow>
            (\<exists>t. overlay fl a b operation alpha = Inr t))"
proof -
  from a b s have t: "tiled {(False, False)} (tree_root a)" "tiled {(False, False)} (tree_root b)"
    and r: "region (tree_root a) = region (tree_root b)"
    using QuadTree_init_tiled [OF a] QuadTree_init_tiled [OF b] by simp_all
  have ca: "leaf_colors (\<lambda>c. length c = color_length (chans img1)) (tree_root a)"
    using a by (auto simp: QuadTree_init_def split: sum.splits dest: build_tree_leaf_colors)
  have cb: "leaf_colors (\<lambda>c. length c = color_length (chans img2)) (tree_root b)"
    using b by (auto simp: QuadTree_init_def split: sum.splits dest: build_tree_leaf_colors)
  from overlay_recursive_total [OF t r, of fl operation alpha "color_length (chans img1)"
      "color_length (chans img2)"] ca cb
  show ?thesis by (auto simp: overlay_def broadcastable_def split: sum.splits)
qed

text \<open>
  C10. For two trees built over rasters of the same height and width, the overlay never
  raises IndexError, and it returns a tree when the leaf colours of the two rasters can be
  broadcast (always, for the rasters of the specification). Every pair of nodes the recursion reaches is congruent: a
  leaf with a side of at most one pixel is never paired with an internal node, and unless
  both nodes are leaves, both operands have exactly four children after expansion.
\<close>

theorem overlay_total_on_built_trees:
  assumes "QuadTree_init fl std_lt img1 thr1 = Inr a"
    and "QuadTree_init fl std_lt img2 thr2 = Inr b"
    and "rows img1 = rows img2" and "cols img1 = cols img2"
  shows "overlay fl a b operation alpha \<noteq> Inl IndexError \<and>
         (broadcastable (color_length (chans img1)) (color_length (chans img2)) \<longrightarrow>
            (\<exists>t. overlay fl a b operation alpha = Inr t)) \<and>
         (\<forall>p q. visits (tree_root a) (tree_root b) p q \<longrightarrow>
            \<not> (is_leaf p \<and> \<not> is_leaf q \<and> (width p \<le> 1 \<or> height p \<le> 1)) \<and>
            \<not> (is_leaf q \<and> \<not> is_leaf p \<and> (width q \<le> 1 \<or> height q \<le> 1)) \<and>
            (is_leaf p \<and> is_leaf q \<or>
             length (children_or_empty (expanded p)) = 4 \<and>
             length (children_or_empty (expanded q)) = 4))"
proof -
  have t: "tiled {(False, False)} (tree_root a)" "tiled {(False, False)} (tree_root b)"
    and r: "region (tree_root a) = region (tree_root b)"
    using QuadTree_init_tiled [OF assms(1)] QuadTree_init_tiled [OF assms(2)] assms(3,4)
    by simp_all
  have "\<not> (is_leaf p \<and> \<not> is_leaf q \<and> (width p \<le> 1 \<or> height p \<le> 1)) \<and>
        \<not> (is_leaf q \<and> \<not> is_leaf p \<and> (width q \<le> 1 \<or> height q \<le> 1)) \<and>
        (is_leaf p \<and> is_leaf q \<or>
         length (children_or_empty (expanded p)) = 4 \<and>
         length (children_or_empty (expanded q)) = 4)"
    if "visits (tree_root a) (tree_root b) p q" for p q
    using visits_congruent [OF that t r] congruent_pair_safe by blast
  with overlay_built_total [OF assms] show ?thesis by blast
qed

theorem overlay_total_on_built_trees_witness:
  "QuadTree_init (\<lambda>x. x) std_lt_exact example_3x2 0 = Inr example_3x2_tree \<and>
   QuadTree_init (\<lambda>x. x) std_lt_exact example_flat 10 = Inr example_flat_tree \<and>
   rows example_3x2 = rows example_flat \<and> cols example_3x2 = cols example_flat \<and>
   broadcastable (color_length (chans example_3x2)) (color_length (chans example_flat)) \<and>
   overlay (\<lambda>x. x) example_3x2_tree example_flat_tree ''blend'' (1 / 2) \<noteq> Inl IndexError \<and>
   (\<exists>t. overlay (\<lambda>x. x) example_3x2_tree example_flat_tree ''blend'' (1 / 2) = Inr t) \<and>
   visits (tree_root example_3x2_tree) (tree_root example_flat_tree)
     (tree_root example_3x2_tree) (tree_root example_flat_tree) \<and>
   length (children_or_empty (expanded (tree_root example_flat_tree))) = 4"
proof -
  have s: "rows example_3x2 = rows example_flat" "cols example_3x2 = cols example_flat"
    "broadcastable (color_length (chans example_3x2)) (color_length (chans example_flat))"
    by (simp_all add: example_3x2_def example_flat_def rgb_image_def broadcastable_def)
  have v: "visits (tree_root example_3x2_tree) (tree_root example_flat_tree)
     (tree_root example_3x2_tree) (tree_root example_flat_tree)" by (rule visits.start)
  have l: "\<not> is_leaf (tree_root example_3x2_tree)" by (simp add: example_3x2_tree_def)
  from overlay_total_on_built_trees [OF example_3x2_built example_flat_built s(1,2),
      of "''blend''" "1 / 2"] s v l example_3x2_built example_flat_built
  show ?thesis by blast
qed




section \<open>A float rounding on the binades of an example\<close>

lemma round_to_near: "\<bar>round_to k x - x\<bar> \<le> 1 / 2 ^ (k + 1)"
proof -
  have "\<bar>of_int (round (x * 2 ^ k)) - x * 2 ^ k\<bar> \<le> 1 / 2" by (rule of_int_round_abs_le)
  then have "\<bar>of_int (round (x * 2 ^ k)) - x * 2 ^ k\<bar> / 2 ^ k \<le> (1 / 2) / 2 ^ k"
    by (rule divide_right_mono) simp
  moreover have "round_to k x - x = (of_int (round (x * 2 ^ k)) - x * 2 ^ k) / 2 ^ k"
    by (simp add: round_to_def diff_divide_distrib)
  then have "\<bar>round_to k x - x\<bar> = \<bar>of_int (round (x * 2 ^ k)) - x * 2 ^ k\<bar> / 2 ^ k"
    by (simp only: abs_divide) simp
  ultimately show ?thesis by simp
qed

lemma round_to_mono: "x \<le> y \<Longrightarrow> round_to k x \<le> round_to k y"
  unfolding round_to_def
  by (intro divide_right_mono) (simp_all add: round_mono)

lemma round_to_int: "round_to k (of_int n) = of_int n"
proof -
  have "(of_int n :: rat) * 2 ^ k = of_int (n * 2 ^ k)" by simp
  then have "round ((of_int n :: rat) * 2 ^ k) = n * 2 ^ k" by (simp only: round_of_int)
  then show ?thesis by (simp add: round_to_def)
qed

lemma round_to_half: "round_to (Suc k) (1 / 2) = 1 / 2"
proof -
  have "(1 / 2 :: rat) * 2 ^ Suc k = of_int (2 ^ k)" by simp
  then have "round ((1 / 2 :: rat) * 2 ^ Suc k) = 2 ^ k" by (simp only: round_of_int)
  then show ?thesis by (simp add: round_to_def)
qed

lemma round_to_53_range:
  assumes "1 / 2 \<le> x" "x < 1"
  shows "1 / 2 \<le> round_to 53 x \<and> round_to 53 x \<le> 1"
proof -
  have h: "round_to 53 (1 / 2) = 1 / 2" using round_to_half [of 52] by simp
  have o: "round_to 53 1 = 1" using round_to_int [of 53 1] by simp
  from round_to_mono [OF assms(1), of 53] round_to_mono [of x 1 53] assms(2) h o
  show ?thesis by simp
qed

lemma round_to_49_range:
  assumes "8 \<le> x" "x < 16"
  shows "8 \<le> round_to 49 x \<and> round_to 49 x \<le> 16"
proof -
  have l: "round_to 49 8 = 8" using round_to_int [of 49 8] by simp
  have u: "round_to 49 16 = 16" using round_to_int [of 49 16] by simp
  from round_to_mono [OF assms(1), of 49] round_to_mono [of x 16 49] assms(2) l u
  show ?thesis by simp
qed

lemma round_binades_low:
  "1 / 2 \<le> x \<Longrightarrow> x < 1 \<Longrightarrow> round_binades x = round_to 53 x"
  by (auto simp: round_binades_def)

lemma round_binades_high:
  "8 \<le> x \<Longrightarrow> x < 16 \<Longrightarrow> round_binades x = round_to 49 x"
  by (auto simp: round_binades_def)

lemma round_binades_else:
  "\<not> (1 / 2 \<le> x \<and> x < 1) \<Longrightarrow> \<not> (8 \<le> x \<and> x < 16) \<Longrightarrow> round_binades x = x"
  by (auto simp: round_binades_def)

lemma round_binades_below:
  assumes "x \<le> g" "g = 1 / 2 \<or> g = 1 \<or> g = 8 \<or> g = 16"
  shows "round_binades x \<le> g"
proof (cases "1 / 2 \<le> x \<and> x < 1")
  case True
  then have r: "round_binades x = round_to 53 x" by (simp only: round_binades_low)
  from round_to_53_range [of x] True have u: "round_to 53 x \<le> 1" by blast
  show ?thesis
  proof (cases "g = 1 / 2")
    case g: True
    with assms(1) True have x: "x = 1 / 2" by linarith
    have "round_to 53 (1 / 2) = 1 / 2" using round_to_half [of 52] by simp
    then have "round_to 53 x = 1 / 2" unfolding x .
    with r g show ?thesis by simp
  next
    case False
    with assms(2) have "1 \<le> g" by auto
    with u r show ?thesis by linarith
  qed
next
  case n1: False
  show ?thesis
  proof (cases "8 \<le> x \<and> x < 16")
    case True
    then have r: "round_binades x = round_to 49 x" by (simp only: round_binades_high)
    from round_to_49_range [of x] True have u: "round_to 49 x \<le> 16" by blast
    from True assms have "g = 8 \<or> g = 16" by auto
    then show ?thesis
    proof
      assume g: "g = 8"
      with assms(1) True have "x = of_int 8" by simp
      then have "round_to 49 x = 8" using round_to_int [of 49 8] by simp
      with r g show ?thesis by simp
    next
      assume "g = 16"
      with u r show ?thesis by simp
    qed
  next
    case False
    with n1 have "round_binades x = x" by (rule round_binades_else)
    with assms(1) show ?thesis by simp
  qed
qed

lemma round_binades_above:
  assumes "g \<le> x" "g = 1 / 2 \<or> g = 1 \<or> g = 8 \<or> g = 16"
  shows "g \<le> round_binades x"
proof (cases "1 / 2 \<le> x \<and> x < 1")
  case True
  then have r: "round_binades x = round_to 53 x" by (simp only: round_binades_low)
  from round_to_53_range [of x] True have l: "1 / 2 \<le> round_to 53 x" by blast
  from True assms have "g = 1 / 2" by auto
  with l r show ?thesis by simp
next
  case n1: False
  show ?thesis
  proof (cases "8 \<le> x \<and> x < 16")
    case True
    then have r: "round_binades x = round_to 49 x" by (simp only: round_binades_high)
    from round_to_49_range [of x] True have l: "8 \<le> round_to 49 x" by blast
    from True assms have "g \<le> 8" by auto
    with l r show ?thesis by linarith
  next
    case False
    with n1 have "round_binades x = x" by (rule round_binades_else)
    with assms(1) show ?thesis by simp
  qed
qed

lemma round_binades_mono:
  assumes "a \<le> b"
  shows "round_binades a \<le> round_binades b"
proof -
  have via: "round_binades a \<le> round_binades b"
    if "a \<le> g" "g \<le> b" "g = 1 / 2 \<or> g = 1 \<or> g = 8 \<or> g = 16" for g
    using round_binades_below [OF that(1,3)] round_binades_above [OF that(2,3)] by simp
  consider (a1) "1 / 2 \<le> a \<and> a < 1" | (a2) "8 \<le> a \<and> a < 16"
    | (a0) "\<not> (1 / 2 \<le> a \<and> a < 1) \<and> \<not> (8 \<le> a \<and> a < 16)" by blast
  then show ?thesis
  proof cases
    case a1
    show ?thesis
    proof (cases "b < 1")
      case True
      with a1 assms have "1 / 2 \<le> b" by linarith
      with True a1 show ?thesis
        by (simp only: round_binades_low) (rule round_to_mono [OF assms])
    next
      case False
      then have "1 \<le> b" by simp
      moreover from a1 have "a \<le> 1" by simp
      ultimately show ?thesis by (intro via [of 1]) simp_all
    qed
  next
    case a2
    show ?thesis
    proof (cases "b < 16")
      case True
      with a2 assms have "8 \<le> b" by linarith
      with True a2 show ?thesis
        by (simp only: round_binades_high) (rule round_to_mono [OF assms])
    next
      case False
      then have "16 \<le> b" by simp
      moreover from a2 have "a \<le> 16" by simp
      ultimately show ?thesis by (intro via [of 16]) simp_all
    qed
  next
    case a0
    consider (b1) "1 / 2 \<le> b \<and> b < 1" | (b2) "8 \<le> b \<and> b < 16"
      | (b0) "\<not> (1 / 2 \<le> b \<and> b < 1) \<and> \<not> (8 \<le> b \<and> b < 16)" by blast
    then show ?thesis
    proof cases
      case b1
      with a0 assms have "a \<le> 1 / 2" by linarith
      moreover from b1 have "1 / 2 \<le> b" by simp
      ultimately show ?thesis by (intro via [of "1 / 2"]) simp_all
    next
      case b2
      with a0 assms have "a \<le> 8" by linarith
      moreover from b2 have "8 \<le> b" by simp
      ultimately show ?thesis by (intro via [of 8]) simp_all
    next
      case b0
      from a0 have "round_binades a = a" by (intro round_binades_else) simp_all
      moreover from b0 have "round_binades b = b" by (intro round_binades_else) simp_all
      ultimately show ?thesis using assms by simp
    qed
  qed
qed

lemma round_binades_int: "round_binades (of_int n) = of_int n"
proof (cases "8 \<le> (of_int n :: rat) \<and> (of_int n :: rat) < 16")
  case True
  then show ?thesis by (simp only: round_binades_high round_to_int)
next
  case False
  have "\<not> (1 / 2 \<le> (of_int n :: rat) \<and> (of_int n :: rat) < 1)"
  proof
    assume h: "1 / 2 \<le> (of_int n :: rat) \<and> (of_int n :: rat) < 1"
    then have "(of_int n :: rat) < of_int 1" by simp
    then have "n < 1" by (simp only: of_int_less_iff)
    moreover from h have "(0 :: rat) < of_int n" by linarith
    then have "0 < n" by simp
    ultimately show False by simp
  qed
  then show ?thesis using False by (rule round_binades_else)
qed

lemma round_binades_near: "\<bar>round_binades a - a\<bar> \<le> \<bar>a\<bar> / 2 ^ 53 + 1 / 2 ^ 1075"
proof -
  have e: "(0::rat) \<le> 1 / 2 ^ 1075" by simp
  consider (a1) "1 / 2 \<le> a \<and> a < 1" | (a2) "8 \<le> a \<and> a < 16"
    | (a0) "\<not> (1 / 2 \<le> a \<and> a < 1) \<and> \<not> (8 \<le> a \<and> a < 16)" by blast
  then show ?thesis
  proof cases
    case a1
    then have r: "round_binades a = round_to 53 a" by (simp only: round_binades_low)
    have "\<bar>round_to 53 a - a\<bar> \<le> 1 / 2 ^ 54" using round_to_near [of 53 a] by simp
    also have "(1::rat) / 2 ^ 54 = (1 / 2) / 2 ^ 53" by simp
    also have "\<dots> \<le> \<bar>a\<bar> / 2 ^ 53"
    proof (rule divide_right_mono)
      show "1 / 2 \<le> \<bar>a\<bar>" using a1 by linarith
    qed simp
    finally show ?thesis using e unfolding r by linarith
  next
    case a2
    then have r: "round_binades a = round_to 49 a" by (simp only: round_binades_high)
    have "\<bar>round_to 49 a - a\<bar> \<le> 1 / 2 ^ 50" using round_to_near [of 49 a] by simp
    also have "(1::rat) / 2 ^ 50 = 8 / 2 ^ 53" by simp
    also have "\<dots> \<le> \<bar>a\<bar> / 2 ^ 53"
    proof (rule divide_right_mono)
      show "8 \<le> \<bar>a\<bar>" using a2 by linarith
    qed simp
    finally show ?thesis using e unfolding r by linarith
  next
    case a0
    then have "round_binades a = a" by (intro round_binades_else) simp_all
    then show ?thesis by simp
  qed
qed

lemma round_binades_is_float_rounding: "float_rounding round_binades"
  unfolding float_rounding_def
  using round_binades_mono round_binades_int round_binades_near by blast

lemma alpha_tenth_range: "0 \<le> alpha_tenth \<and> alpha_tenth \<le> 1"
  by (simp add: alpha_tenth_def)


section \<open>The colour combination\<close>

lemma exact_is_float_rounding: "float_rounding (\<lambda>x. x)"
  by (simp add: float_rounding_def)

lemma fl_mono: "float_rounding fl \<Longrightarrow> a \<le> b \<Longrightarrow> fl a \<le> fl b"
  by (simp add: float_rounding_def)

lemma fl_int: "float_rounding fl \<Longrightarrow> \<bar>n\<bar> \<le> 2 ^ 53 \<Longrightarrow> fl (of_int n) = of_int n"
  by (simp add: float_rounding_def)

lemma fl_small_int:
  assumes "float_rounding fl" "0 \<le> n" "n \<le> 1000"
  shows "fl (of_int n) = of_int n"
proof -
  have "(1000::int) \<le> 2 ^ 53" by simp
  with assms(2,3) have "\<bar>n\<bar> \<le> 2 ^ 53" by linarith
  with assms(1) show ?thesis by (rule fl_int)
qed

lemma fl_near:
  assumes R: "float_rounding fl" and x: "0 \<le> x" "x \<le> 256"
  shows "\<bar>fl x - x\<bar> \<le> 1 / 2 ^ 44"
proof -
  from R have "\<bar>fl x - x\<bar> \<le> \<bar>x\<bar> / 2 ^ 53 + 1 / 2 ^ 1075" by (simp add: float_rounding_def)
  also have "\<bar>x\<bar> / 2 ^ 53 \<le> 256 / 2 ^ 53" using x by (simp add: divide_right_mono)
  also have "(256::rat) / 2 ^ 53 = 1 / 2 ^ 45" by simp
  also have "(1::rat) / 2 ^ 1075 \<le> 1 / 2 ^ 45"
    by (rule divide_left_mono) (simp_all add: power_increasing)
  also have "(1::rat) / 2 ^ 45 + 1 / 2 ^ 45 = 1 / 2 ^ 44" by simp
  finally show ?thesis by simp
qed

lemma fl_nonneg: "float_rounding fl \<Longrightarrow> 0 \<le> x \<Longrightarrow> 0 \<le> fl x"
  using fl_mono [of fl 0 x] fl_small_int [of fl 0] by simp

lemma fl_floor_stable:
  assumes R: "float_rounding fl" and n: "0 \<le> n" "n \<le> 255"
    and x: "of_int n \<le> x" "x \<le> of_int n + 1 - 1 / 300"
  shows "py_int (fl x) = n"
proof -
  have lo: "of_int n \<le> fl x"
    using fl_mono [OF R x(1)] fl_small_int [OF R n(1)] n(2) by simp
  have x0: "0 \<le> x" "x \<le> 256" using n x by auto
  from fl_near [OF R x0] have "fl x \<le> x + 1 / 2 ^ 44" by linarith
  also have "\<dots> \<le> of_int n + 1 - 1 / 300 + 1 / 2 ^ 44" using x(2) by simp
  also have "\<dots> < of_int n + 1" by simp
  finally have hi: "fl x < of_int n + 1" .
  from lo n(1) have "0 \<le> fl x" by (meson of_int_0_le_iff order_trans)
  then have "py_int (fl x) = \<lfloor>fl x\<rfloor>" by (simp add: py_int_def)
  also from lo hi have "\<lfloor>fl x\<rfloor> = n" by (simp add: floor_unique)
  finally show ?thesis .
qed

lemma quotient_255:
  fixes p :: int
  defines "x \<equiv> (of_int p :: rat) / 255"
  shows "x = of_int (p div 255) + of_int (p mod 255) / 255"
proof -
  have "(of_int p :: rat) = of_int (255 * (p div 255) + p mod 255)"
    by (simp only: mult_div_mod_eq)
  also have "\<dots> = 255 * of_int (p div 255) + of_int (p mod 255)"
    by (simp only: of_int_add of_int_mult of_int_numeral)
  finally show ?thesis unfolding x_def by simp
qed

lemma product_range:
  fixes a b :: int
  assumes "0 \<le> a" "a \<le> 255" "0 \<le> b" "b \<le> 255"
  shows "0 \<le> a * b \<and> a * b \<le> 65025"
proof -
  have "a * b \<le> 255 * 255" using assms by (intro mult_mono) simp_all
  with assms show ?thesis by simp
qed

lemma divide_255_truncated:
  assumes R: "float_rounding fl" and p: "0 \<le> p" "p \<le> 65025"
  shows "py_int (fl (of_int p / 255)) = p div 255"
proof (rule fl_floor_stable [OF R])
  let ?q = "p div 255" and ?r = "p mod 255"
  show "0 \<le> ?q" using p by (simp add: pos_imp_zdiv_nonneg_iff)
  show "?q \<le> 255" using p by simp
  have r: "0 \<le> ?r" "?r \<le> 254" by simp_all
  have x: "(of_int p :: rat) / 255 = of_int ?q + of_int ?r / 255" by (rule quotient_255)
  show "(of_int ?q :: rat) \<le> of_int p / 255" unfolding x using r by simp
  have "(of_int ?r :: rat) \<le> 254" using r(2) by (metis of_int_le_iff of_int_numeral)
  then show "(of_int p :: rat) / 255 \<le> of_int ?q + 1 - 1 / 300" unfolding x by simp
qed

lemma ceil_div_exact: "(255 * q + 254) div 255 = (q::int)"
  by (rule int_div_pos_eq [of _ _ _ 254]) simp_all

lemma ceil_div_inexact:
  "1 \<le> r \<Longrightarrow> r \<le> 254 \<Longrightarrow> (255 * q + r + 254) div 255 = (q::int) + 1"
  by (rule int_div_pos_eq [of _ _ _ "r - 1"]) simp_all

lemma screen_truncated:
  assumes R: "float_rounding fl" and p: "0 \<le> p" "p \<le> 65025"
  shows "py_int (fl (255 - fl (of_int p / 255))) = 255 - (p + 254) div 255"
proof -
  define q where "q = p div 255"
  define r where "r = p mod 255"
  let ?x = "(of_int p :: rat) / 255"
  have q: "0 \<le> q" "q \<le> 255" using p by (simp_all add: q_def pos_imp_zdiv_nonneg_iff)
  have r: "0 \<le> r" "r \<le> 254" by (simp_all add: r_def)
  have x: "?x = of_int q + of_int r / 255" unfolding q_def r_def by (rule quotient_255)
  have p_eq: "p = 255 * q + r" by (simp add: q_def r_def)
  show ?thesis
  proof (cases "r = 0")
    case True
    then have "?x = of_int q" using x by simp
    then have "fl ?x = of_int q" using fl_small_int [OF R q(1)] q(2) by simp
    then have "255 - fl ?x = of_int (255 - q)" by simp
    then have "py_int (fl (255 - fl ?x)) = py_int (of_int (255 - q))"
      using fl_small_int [OF R, of "255 - q"] q by simp
    also have "\<dots> = 255 - q" using q by (simp add: py_int_def)
    also have "(p + 254) div 255 = q" using True p_eq ceil_div_exact [of q] by simp
    then have "255 - q = 255 - (p + 254) div 255" by simp
    finally show ?thesis .
  next
    case False
    with r have r1: "1 \<le> r" by linarith
    have q254: "q \<le> 254" using p(2) r1 p_eq by linarith
    have rr: "(1::rat) \<le> of_int r" "(of_int r :: rat) \<le> 254"
      using r1 r(2) by (metis of_int_le_iff of_int_1, metis of_int_le_iff of_int_numeral)
    have xl: "of_int q + 1 / 255 \<le> ?x" and xu: "?x \<le> of_int q + 254 / 255"
      unfolding x using rr by simp_all
    have q0: "(0::rat) \<le> of_int q" "(of_int q :: rat) \<le> 255"
      using q by (metis of_int_0_le_iff, metis of_int_le_iff of_int_numeral)
    have x0: "0 \<le> ?x" "?x \<le> 256" using xl xu q0 by linarith+
    from fl_near [OF R x0] have d: "?x - 1 / 2 ^ 44 \<le> fl ?x" "fl ?x \<le> ?x + 1 / 2 ^ 44"
      by linarith+
    have "py_int (fl (255 - fl ?x)) = 254 - q"
    proof (rule fl_floor_stable [OF R])
      show "0 \<le> 254 - q" "254 - q \<le> 255" using q q254 by simp_all
      have "(of_int (254 - q) :: rat) = 254 - of_int q" by simp
      moreover have "(254::rat) / 255 + 1 / 2 ^ 44 \<le> 1" by simp
      then have "(254::rat) - of_int q \<le> 255 - fl ?x"
        using d(2) xu by linarith
      ultimately show "(of_int (254 - q) :: rat) \<le> 255 - fl ?x" by simp
      have e: "(1::rat) / 2 ^ 44 \<le> 1 / 255 - 1 / 300" by simp
      have "255 - fl ?x \<le> 255 - ?x + 1 / 2 ^ 44" using d(1) by linarith
      also have "\<dots> \<le> 255 - (of_int q + 1 / 255) + 1 / 2 ^ 44" using xl by linarith
      also have "\<dots> \<le> 254 - of_int q + 1 - 1 / 300" using e by linarith
      finally show "255 - fl ?x \<le> of_int (254 - q) + 1 - 1 / 300" by simp
    qed
    also have "(p + 254) div 255 = q + 1" using r1 r(2) p_eq ceil_div_inexact [of r q] by simp
    then have "254 - q = 255 - (p + 254) div 255" by simp
    finally show ?thesis .
  qed
qed

lemma blend_bounds:
  assumes R: "float_rounding fl" and a: "0 \<le> a" "a \<le> 255" and b: "0 \<le> b" "b \<le> 255"
    and al: "0 \<le> alpha" "alpha \<le> 1"
  shows "0 \<le> blend_value fl alpha a b \<and> blend_value fl alpha a b < 256 \<and>
         \<bar>blend_value fl alpha a b - (of_int a * (1 - alpha) + of_int b * alpha)\<bar> \<le> 1 / 2 ^ 35"
proof -
  define A :: rat where "A = of_int a"
  define B :: rat where "B = of_int b"
  define u where "u = fl (1 - alpha)"
  define s1 where "s1 = fl (A * u)"
  define s2 where "s2 = fl (B * alpha)"
  define v where "v = fl (s1 + s2)"
  define t :: rat where "t = 1 / 2 ^ 44"
  have v: "blend_value fl alpha a b = v"
    by (simp add: blend_value_def v_def s1_def s2_def u_def A_def B_def)
  have A: "0 \<le> A" "A \<le> 255" unfolding A_def using a
    by (metis of_int_0_le_iff, metis of_int_le_iff of_int_numeral)
  have B: "0 \<le> B" "B \<le> 255" unfolding B_def using b
    by (metis of_int_0_le_iff, metis of_int_le_iff of_int_numeral)
  have t: "0 \<le> t" "258 * t \<le> 1 / 2 ^ 35" "1 / 2 ^ 35 < (1::rat)" by (simp_all add: t_def)
  have u0: "0 \<le> u" unfolding u_def using al by (intro fl_nonneg [OF R]) simp
  have "fl (1 - alpha) \<le> fl 1" using al by (intro fl_mono [OF R]) simp
  moreover have "fl 1 = 1" using fl_small_int [OF R, of 1] by simp
  ultimately have u1: "u \<le> 1" by (simp add: u_def)
  have un: "\<bar>u - (1 - alpha)\<bar> \<le> t" unfolding u_def t_def using al
    by (intro fl_near [OF R]) simp_all
  have Au0: "0 \<le> A * u" using A u0 by simp
  have "A * u \<le> 255 * 1" using A u0 u1 by (intro mult_mono) simp_all
  then have Au: "A * u \<le> 256" by simp
  have Ba0: "0 \<le> B * alpha" using B al by simp
  have "B * alpha \<le> 255 * 1" using B al by (intro mult_mono) simp_all
  then have Ba: "B * alpha \<le> 256" by simp
  have s1n: "\<bar>s1 - A * u\<bar> \<le> t" unfolding s1_def t_def by (rule fl_near [OF R Au0 Au])
  have s2n: "\<bar>s2 - B * alpha\<bar> \<le> t" unfolding s2_def t_def by (rule fl_near [OF R Ba0 Ba])
  have s10: "0 \<le> s1" unfolding s1_def by (rule fl_nonneg [OF R Au0])
  have s20: "0 \<le> s2" unfolding s2_def by (rule fl_nonneg [OF R Ba0])
  have "\<bar>A * u - A * (1 - alpha)\<bar> = A * \<bar>u - (1 - alpha)\<bar>"
    using A(1) by (simp add: abs_mult right_diff_distrib [symmetric])
  also have "\<dots> \<le> 255 * t" using A un t(1) by (intro mult_mono) simp_all
  finally have Aun: "\<bar>A * u - A * (1 - alpha)\<bar> \<le> 255 * t" .
  have "A * (1 - alpha) \<le> 255 * (1 - alpha)" using A al by (intro mult_right_mono) simp_all
  moreover have "B * alpha \<le> 255 * alpha" using B al by (intro mult_right_mono) simp_all
  ultimately have ex: "A * (1 - alpha) + B * alpha \<le> 255" by simp
  have sum: "\<bar>(s1 + s2) - (A * (1 - alpha) + B * alpha)\<bar> \<le> 257 * t"
    using s1n s2n Aun by linarith
  have s0: "0 \<le> s1 + s2" using s10 s20 by simp
  have s256: "s1 + s2 \<le> 256" using sum ex t by linarith
  have vn: "\<bar>v - (s1 + s2)\<bar> \<le> t" unfolding v_def t_def by (rule fl_near [OF R s0 s256])
  have v0: "0 \<le> v" unfolding v_def by (rule fl_nonneg [OF R s0])
  have near: "\<bar>v - (A * (1 - alpha) + B * alpha)\<bar> \<le> 1 / 2 ^ 35"
    using vn sum t by linarith
  have "v < 256" using near ex t by linarith
  with v0 near show ?thesis by (simp add: v A_def B_def)
qed

lemma py_int_range: "0 \<le> x \<Longrightarrow> x < 256 \<Longrightarrow> 0 \<le> py_int x \<and> py_int x \<le> 255"
proof -
  assume x: "0 \<le> x" "x < 256"
  then have "\<lfloor>x\<rfloor> < 256" by (simp add: floor_less_iff)
  with x show ?thesis by (simp add: py_int_def)
qed

lemma channel_range:
  assumes R: "float_rounding fl" and a: "0 \<le> a" "a \<le> 255" and b: "0 \<le> b" "b \<le> 255"
    and al: "0 \<le> alpha" "alpha \<le> 1"
  shows "0 \<le> overlay_channel fl operation alpha a b \<and>
         overlay_channel fl operation alpha a b \<le> 255"
proof -
  from blend_bounds [OF R a b al] have bl: "0 \<le> py_int (blend_value fl alpha a b) \<and>
      py_int (blend_value fl alpha a b) \<le> 255"
    by (intro py_int_range) simp_all
  have m: "0 \<le> a * b" "a * b \<le> 65025" using product_range [OF a b] by simp_all
  have mu: "0 \<le> (a * b) div 255 \<and> (a * b) div 255 \<le> 255"
    using m zdiv_mono1 [of "a * b" 65025 255] by (simp add: pos_imp_zdiv_nonneg_iff)
  have s: "0 \<le> (255 - a) * (255 - b)" "(255 - a) * (255 - b) \<le> 65025"
    using product_range [of "255 - a" "255 - b"] a b by simp_all
  have "(255 - a) * (255 - b) + 254 \<le> 65279" using s by simp
  then have "((255 - a) * (255 - b) + 254) div 255 \<le> 65279 div 255" by (rule zdiv_mono1) simp
  moreover have "0 \<le> ((255 - a) * (255 - b) + 254) div 255"
    using s by (simp add: pos_imp_zdiv_nonneg_iff)
  ultimately have sc: "0 \<le> 255 - ((255 - a) * (255 - b) + 254) div 255 \<and>
      255 - ((255 - a) * (255 - b) + 254) div 255 \<le> 255" by simp
  show ?thesis
    unfolding overlay_channel_def
    using bl mu sc a b divide_255_truncated [OF R m] screen_truncated [OF R s]
    by (simp del: of_int_mult of_int_diff)
qed

lemma blend_truncation:
  assumes R: "float_rounding fl" and a: "0 \<le> a" "a \<le> 255" and b: "0 \<le> b" "b \<le> 255"
    and al: "0 \<le> alpha" "alpha \<le> 1"
  shows "\<bar>overlay_channel fl ''blend'' alpha a b -
           py_int (of_int a * (1 - alpha) + of_int b * alpha)\<bar> \<le> 1 \<and>
         (of_int (py_int (of_int a * (1 - alpha) + of_int b * alpha)) + 1 / 2 ^ 35
            \<le> of_int a * (1 - alpha) + of_int b * alpha \<and>
          of_int a * (1 - alpha) + of_int b * alpha + 1 / 2 ^ 35
            < of_int (py_int (of_int a * (1 - alpha) + of_int b * alpha)) + 1 \<longrightarrow>
          overlay_channel fl ''blend'' alpha a b =
            py_int (of_int a * (1 - alpha) + of_int b * alpha))"
proof -
  define E :: rat where "E = of_int a * (1 - alpha) + of_int b * alpha"
  define v where "v = blend_value fl alpha a b"
  have d: "(1::rat) / 2 ^ 35 < 1" by simp
  from blend_bounds [OF R a b al] have v0: "0 \<le> v" and near: "\<bar>v - E\<bar> \<le> 1 / 2 ^ 35"
    by (simp_all add: v_def E_def)
  have "(0::rat) \<le> of_int a * (1 - alpha)" "(0::rat) \<le> of_int b * alpha"
    using a(1) b(1) al by simp_all
  then have E0: "0 \<le> E" by (simp add: E_def)
  have pv: "overlay_channel fl ''blend'' alpha a b = \<lfloor>v\<rfloor>"
    using v0 by (simp add: overlay_channel_def py_int_def v_def)
  have pE: "py_int E = \<lfloor>E\<rfloor>" using E0 by (simp add: py_int_def)
  have "v \<le> E + 1" "E \<le> v + 1" using near d by linarith+
  then have "\<lfloor>v\<rfloor> \<le> \<lfloor>E + 1\<rfloor>" "\<lfloor>E\<rfloor> \<le> \<lfloor>v + 1\<rfloor>" by (simp_all only: floor_mono)
  then have one: "\<bar>\<lfloor>v\<rfloor> - \<lfloor>E\<rfloor>\<bar> \<le> 1" by simp
  have same: "\<lfloor>v\<rfloor> = \<lfloor>E\<rfloor>"
    if "of_int \<lfloor>E\<rfloor> + 1 / 2 ^ 35 \<le> E \<and> E + 1 / 2 ^ 35 < of_int \<lfloor>E\<rfloor> + 1"
  proof (rule floor_unique)
    show "of_int \<lfloor>E\<rfloor> \<le> v" using that near by linarith
    show "v < of_int \<lfloor>E\<rfloor> + 1" using that near by linarith
  qed
  from one same show ?thesis unfolding pv pE E_def [symmetric] by blast
qed

text \<open>
  C5 (amended). For channel values in 0..255 and alpha in [0, 1], with any rounding of
  the float operations: add returns min(c1 + c2, 255); multiply and screen return the
  exact values of (c1 * c2) / 255 and 255 - ((255 - c1) * (255 - c2)) / 255, truncated
  toward zero; blend returns the truncation of c1 * (1 - alpha) + c2 * alpha as the float
  operations evaluate it, a value within 2^-35 of the exact one, so that the result
  differs from the truncation of the exact value by at most one and equals it unless the
  exact value lies within 2^-35 of an integer; every operation tag gives a result in
  0..255. Colour lists of the same length are combined channel by channel.
\<close>

theorem combine_formulas:
  assumes "float_rounding fl" and "0 \<le> a" "a \<le> 255" and "0 \<le> b" "b \<le> 255"
    and "0 \<le> alpha" "alpha \<le> 1"
  shows "overlay_channel fl ''blend'' alpha a b = py_int (blend_value fl alpha a b) \<and>
         \<bar>blend_value fl alpha a b - (of_int a * (1 - alpha) + of_int b * alpha)\<bar> \<le> 1 / 2 ^ 35 \<and>
         \<bar>overlay_channel fl ''blend'' alpha a b -
           py_int (of_int a * (1 - alpha) + of_int b * alpha)\<bar> \<le> 1 \<and>
         (of_int (py_int (of_int a * (1 - alpha) + of_int b * alpha)) + 1 / 2 ^ 35
            \<le> of_int a * (1 - alpha) + of_int b * alpha \<and>
          of_int a * (1 - alpha) + of_int b * alpha + 1 / 2 ^ 35
            < of_int (py_int (of_int a * (1 - alpha) + of_int b * alpha)) + 1 \<longrightarrow>
          overlay_channel fl ''blend'' alpha a b =
            py_int (of_int a * (1 - alpha) + of_int b * alpha)) \<and>
         overlay_channel fl ''add'' alpha a b = min (a + b) 255 \<and>
         overlay_channel fl ''multiply'' alpha a b = py_int (of_int (a * b) / 255) \<and>
         overlay_channel fl ''screen'' alpha a b =
           py_int (255 - of_int ((255 - a) * (255 - b)) / 255) \<and>
         0 \<le> overlay_channel fl operation alpha a b \<and>
         overlay_channel fl operation alpha a b \<le> 255 \<and>
         (length c1 = length c2 \<longrightarrow>
            apply_overlay_operation fl c1 c2 operation alpha =
              Inr (map (\<lambda>(x, y). overlay_channel fl operation alpha x y) (zip c1 c2)))"
proof -
  note R = assms(1) and a = assms(2,3) and b = assms(4,5) and al = assms(6,7)
  have m: "0 \<le> a * b" "a * b \<le> 65025" using product_range [OF a b] by simp_all
  have s: "0 \<le> (255 - a) * (255 - b)" "(255 - a) * (255 - b) \<le> 65025"
    using product_range [of "255 - a" "255 - b"] a b by simp_all
  have mul: "overlay_channel fl ''multiply'' alpha a b = py_int (of_int (a * b) / 255)"
    using divide_255_truncated [OF R m] divide_255_truncated [OF exact_is_float_rounding m]
    by (simp add: overlay_channel_def del: of_int_mult)
  have scr: "overlay_channel fl ''screen'' alpha a b =
      py_int (255 - of_int ((255 - a) * (255 - b)) / 255)"
    using screen_truncated [OF R s] screen_truncated [OF exact_is_float_rounding s]
    by (simp add: overlay_channel_def del: of_int_mult of_int_diff)
  have bl: "overlay_channel fl ''blend'' alpha a b = py_int (blend_value fl alpha a b)"
    and ad: "overlay_channel fl ''add'' alpha a b = min (a + b) 255"
    by (simp_all add: overlay_channel_def)
  have lists: "length c1 = length c2 \<longrightarrow>
      apply_overlay_operation fl c1 c2 operation alpha =
        Inr (map (\<lambda>(x, y). overlay_channel fl operation alpha x y) (zip c1 c2))"
    by (simp add: apply_overlay_operation_def broadcast2_def)
  from bl blend_bounds [OF R a b al] blend_truncation [OF R a b al] ad mul scr
    channel_range [OF R a b al, of operation] lists
  show ?thesis by blast
qed

theorem combine_formulas_witness:
  "float_rounding (\<lambda>x. x) \<and>
   of_int (py_int (of_int 100 * (1 - 1 / 2) + of_int 201 * (1 / 2))) + 1 / 2 ^ 35
     \<le> (of_int 100 * (1 - 1 / 2) + of_int 201 * (1 / 2) :: rat) \<and>
   (of_int 100 * (1 - 1 / 2) + of_int 201 * (1 / 2) :: rat) + 1 / 2 ^ 35
     < of_int (py_int (of_int 100 * (1 - 1 / 2) + of_int 201 * (1 / 2))) + 1 \<and>
   py_int (of_int 100 * (1 - 1 / 2) + of_int 201 * (1 / 2)) = 150 \<and>
   overlay_channel (\<lambda>x. x) ''blend'' (1 / 2) 100 201 = 150 \<and>
   overlay_channel (\<lambda>x. x) ''add'' (1 / 2) 100 201 = 255 \<and>
   overlay_channel (\<lambda>x. x) ''multiply'' (1 / 2) 100 201 = 78 \<and>
   overlay_channel (\<lambda>x. x) ''screen'' (1 / 2) 100 201 = 222 \<and>
   py_int (255 - of_int ((255 - 100) * (255 - 201)) / 255) = 222 \<and>
   length [100, 0, 255 :: int] = length [201, 255, 255 :: int] \<and>
   apply_overlay_operation (\<lambda>x. x) [100, 0, 255] [201, 255, 255] ''screen'' (1 / 2) =
     Inr [222, 255, 255]"
proof -
  have e: "py_int (of_int 100 * (1 - 1 / 2) + of_int 201 * (1 / 2)) = 150"
    by code_simp
  have h: "of_int (150::int) + 1 / 2 ^ 35 \<le> (of_int 100 * (1 - 1 / 2) + of_int 201 * (1 / 2) :: rat)"
    "(of_int 100 * (1 - 1 / 2) + of_int 201 * (1 / 2) :: rat) + 1 / 2 ^ 35 < of_int (150::int) + 1"
    by simp_all
  have v: "min (100 + 201) (255::int) = 255"
    "py_int (of_int (100 * 201) / 255) = 78"
    "py_int (255 - of_int ((255 - 100) * (255 - 201)) / 255) = 222"
    "map (\<lambda>(x, y). overlay_channel (\<lambda>x. x) ''screen'' (1 / 2) x y)
       (zip [100, 0, 255] [201, 255, 255]) = [222, 255, 255]"
    by code_simp+
  from combine_formulas [OF exact_is_float_rounding, where a = 100 and b = 201
      and alpha = "1 / 2" and ?c1.0 = "[100, 0, 255]" and ?c2.0 = "[201, 255, 255]"
      and operation = "''screen''"] e h v exact_is_float_rounding
  show ?thesis by simp
qed

text \<open>
  Blend of the channel values 10 and 0 with alpha the double 0.1, under the rounding of
  binary64 on the binades the computation visits: \<open>1 - alpha\<close> rounds to
  \<open>8106479329266893 * 2^-53\<close>, ten times that rounds to 9, and the result is 9; the
  exact value of 10 * (1 - alpha) lies just below 9 and truncates to 8.
\<close>

theorem blend_exact_truncation_counterexample:
  "float_rounding round_binades \<and> 0 \<le> alpha_tenth \<and> alpha_tenth \<le> 1 \<and>
   round_binades (1 - alpha_tenth) = 8106479329266893 / 2 ^ 53 \<and>
   overlay_channel round_binades ''blend'' alpha_tenth 10 0 = 9 \<and>
   py_int (of_int 10 * (1 - alpha_tenth) + of_int 0 * alpha_tenth) = 8"
proof -
  have "round_binades (1 - alpha_tenth) = 8106479329266893 / 2 ^ 53"
    "overlay_channel round_binades ''blend'' alpha_tenth 10 0 = 9"
    "py_int (of_int 10 * (1 - alpha_tenth) + of_int 0 * alpha_tenth) = 8"
    by code_simp+
  with round_binades_is_float_rounding alpha_tenth_range show ?thesis by blast
qed

section \<open>The renderer paints the leaves\<close>




lemma fill_region_shape:
  "rows (fill_region img x y w h f) = rows img"
  "cols (fill_region img x y w h f) = cols img"
  "chans (fill_region img x y w h f) = chans img"
  by (simp_all add: fill_region_def)

lemma fill_region_elem:
  "elem (fill_region img (node_x n) (node_y n) (width n) (height n) f) r c k =
     (if covers img n r c then f k else elem img r c k)"
  by (simp add: fill_region_def covers_def)








lemma uint8_range: "0 \<le> uint (v :: 8 word) \<and> uint v \<le> 255"
  using uint_lt2p [of v] by simp





lemma pixel_list_valid:
  assumes "getitem img y x = Inr px"
  shows "valid_color (chans img) (pixel_list img px)"
  using pixel_list_length [OF assms] uint8_range
  by (auto simp: valid_color_def pixel_list_def list_all_iff split: option.splits list.splits)


lemma uint8_of_int: "0 \<le> v \<Longrightarrow> v \<le> 255 \<Longrightarrow> uint (word_of_int v :: 8 word) = v"
  by (simp add: uint_word_of_int take_bit_eq_mod)

lemma leaf_value_valid:
  assumes v: "pixel_value n = Some l" "valid_color (chans img) l" and ch: "chans img \<noteq> Some 0"
  shows "leaf_value img (pixel_value n) = Inr (leaf_word (chans img) n)"
proof (cases "chans img")
  case None
  with v have l: "length l = 3" "list_all (\<lambda>v. 0 \<le> v \<and> v \<le> 255) l"
    by (simp_all add: valid_color_def)
  then have "l \<noteq> []" "0 \<le> l ! 0 \<and> l ! 0 \<le> 255" by (auto simp: list_all_length)
  with None v(1) show ?thesis
    by (simp add: leaf_value_def leaf_word_def color_or_black_def fun_eq_iff)
next
  case (Some c)
  with v ch have l: "length l = c" "list_all (\<lambda>v. 0 \<le> v \<and> v \<le> 255) l" "c \<noteq> 0"
    by (simp_all add: valid_color_def)
  then have "l \<noteq> []" by auto
  with Some v(1) l show ?thesis
    by (simp add: leaf_value_def leaf_word_def color_or_black_def fun_eq_iff)
qed

lemma leaf_word_shown:
  assumes v: "pixel_value n = Some l" "valid_color (chans img) l" and ch: "chans img \<noteq> Some 0"
    and e: "\<forall>k. elem out r c k = leaf_word (chans img) n k" and co: "chans out = chans img"
  shows "pixel_at out r c = stored_color (chans img) n"
proof (cases "chans img")
  case None
  with v have l: "length l = 3" "list_all (\<lambda>v. 0 \<le> v \<and> v \<le> 255) l"
    by (simp_all add: valid_color_def)
  then have l0: "l \<noteq> []" "0 \<le> l ! 0 \<and> l ! 0 \<le> 255" by (auto simp: list_all_length)
  then have "take 1 l = [l ! 0]" by (cases l) simp_all
  with None v(1) l0 e co show ?thesis
    by (simp add: pixel_at_def stored_color_def channels_def leaf_word_def color_or_black_def
          uint8_of_int)
next
  case (Some k)
  with v ch have l: "length l = k" "list_all (\<lambda>v. 0 \<le> v \<and> v \<le> 255) l" "k \<noteq> 0"
    by (simp_all add: valid_color_def)
  then have ne: "l \<noteq> []" by auto
  have "map (\<lambda>i. uint (word_of_int (l ! i) :: 8 word)) [0..<k] = map (\<lambda>i. l ! i) [0..<k]"
    using l(1,2) by (intro map_cong) (auto simp: list_all_length uint8_of_int)
  also have "\<dots> = l" using l(1) map_nth [of l] by simp
  finally show ?thesis
    using Some v(1) ne e co
    by (simp add: pixel_at_def stored_color_def channels_def leaf_word_def color_or_black_def)
qed





text \<open>
  C9. Where build reaches a region with width or height at most one, the leaf's colour is
  the pixel at the region's corner (x, y) alone: a raster that agrees there gives the same
  leaf, whatever its other pixels. Rendering the leaf gives every pixel of its region, a
  whole strip when the other side is longer, the corner pixel's values.
\<close>

theorem forced_leaf_corner_color:
  assumes "w \<le> 1 \<or> h \<le> 1" and "getitem img y x = Inr px"
  shows "build_tree fl std_lt thr img x y w h =
           Inr (QuadTreeNode x y w h True (Some (pixel_list img px)) None) \<and>
         (\<forall>img'. chans img' = chans img \<and> getitem img' y x = Inr px \<longrightarrow>
            build_tree fl std_lt thr img' x y w h = build_tree fl std_lt thr img x y w h) \<and>
         (\<forall>out. chans out = chans img \<and> chans img \<noteq> Some 0 \<longrightarrow>
            (\<exists>out'. render_node (QuadTreeNode x y w h True (Some (pixel_list img px)) None) out =
                     Inr out' \<and>
               (\<forall>r c. covers out (QuadTreeNode x y w h True (Some (pixel_list img px)) None) r c
                  \<longrightarrow> pixel_at out' r c = map uint px)))"
proof -
  let ?n = "QuadTreeNode x y w h True (Some (pixel_list img px)) None"
  have b: "build_tree fl std_lt thr img x y w h = Inr ?n"
    using assms by (simp add: build_tree.simps [of fl std_lt thr img x y w h])
  have same: "build_tree fl std_lt thr img' x y w h = build_tree fl std_lt thr img x y w h"
    if "chans img' = chans img \<and> getitem img' y x = Inr px" for img'
    using assms that
    by (simp add: build_tree.simps [of fl std_lt thr _ x y w h] pixel_list_def)
  have shown: "\<exists>out'. render_node ?n out = Inr out' \<and>
      (\<forall>r c. covers out ?n r c \<longrightarrow> pixel_at out' r c = map uint px)"
    if o: "chans out = chans img \<and> chans img \<noteq> Some 0" for out
  proof -
    have v: "valid_color (chans out) (pixel_list img px)"
      using pixel_list_valid [OF assms(2)] o by simp
    have lv: "leaf_value out (pixel_value ?n) = Inr (leaf_word (chans out) ?n)"
      using leaf_value_valid [of ?n "pixel_list img px" out] v o by simp
    let ?out' = "fill_region out x y w h (leaf_word (chans out) ?n)"
    have r: "render_node ?n out = Inr ?out'" using lv by simp
    have "pixel_at ?out' r c = map uint px" if cv: "covers out ?n r c" for r c
    proof -
      have e: "\<forall>k. elem ?out' r c k = leaf_word (chans out) ?n k"
        using fill_region_elem [of out ?n "leaf_word (chans out) ?n" r c] cv by simp
      have "pixel_at ?out' r c = stored_color (chans out) ?n"
        using leaf_word_shown [of ?n "pixel_list img px" out ?out' r c] v o e
        by (simp add: fill_region_shape)
      also have "\<dots> = map uint px"
        using getitem_length [OF assms(2)] o
        by (cases px)
           (auto simp: stored_color_def color_or_black_def pixel_list_def split: option.splits)
      finally show ?thesis .
    qed
    with r show ?thesis by blast
  qed
  from b same shown show ?thesis by blast
qed

theorem forced_leaf_corner_color_witness:
  "((1::int) \<le> 1 \<or> (2::int) \<le> 1) \<and>
   getitem example_3x2 0 0 = Inr [1, 2, 3] \<and> getitem example_3x2 1 0 = Inr [10, 11, 12] \<and>
   build_tree (\<lambda>x. x) std_lt_exact 0 example_3x2 0 0 1 2 =
     Inr (QuadTreeNode 0 0 1 2 True (Some [1, 2, 3]) None) \<and>
   (\<exists>out'. render_node (QuadTreeNode 0 0 1 2 True (Some [1, 2, 3]) None) (zeros 2 3 (Some 3)) =
             Inr out' \<and>
      pixel_at out' 0 0 = [1, 2, 3] \<and> pixel_at out' 1 0 = [1, 2, 3])"
proof -
  let ?n = "QuadTreeNode 0 0 1 2 True (Some [1, 2, 3]) None"
  have g: "getitem example_3x2 0 0 = Inr [1, 2, 3]" "getitem example_3x2 1 0 = Inr [10, 11, 12]"
    by code_simp+
  have pl: "pixel_list example_3x2 [1, 2, 3] = [1, 2, 3]" by code_simp
  have ch: "chans (zeros 2 3 (Some 3)) = chans example_3x2 \<and> chans example_3x2 \<noteq> Some 0"
    by (simp add: zeros_def example_3x2_def rgb_image_def)
  have cv: "covers (zeros 2 3 (Some 3)) ?n 0 0" "covers (zeros 2 3 (Some 3)) ?n 1 0"
    by (simp_all add: covers_def in_slice_def slice_bound_def zeros_def)
  have u: "map uint [1, 2, 3 :: 8 word] = [1, 2, 3]" by simp
  from forced_leaf_corner_color [where w = 1 and h = 2 and img = example_3x2 and y = 0
      and x = 0 and px = "[1, 2, 3]" and fl = "\<lambda>x. x" and std_lt = std_lt_exact and thr = 0]
    g(1)
  have b: "build_tree (\<lambda>x. x) std_lt_exact 0 example_3x2 0 0 1 2 = Inr ?n"
    and r: "\<forall>out. chans out = chans example_3x2 \<and> chans example_3x2 \<noteq> Some 0 \<longrightarrow>
      (\<exists>out'. render_node ?n out = Inr out' \<and>
         (\<forall>r c. covers out ?n r c \<longrightarrow> pixel_at out' r c = map uint [1, 2, 3 :: 8 word]))"
    by (simp_all add: pl)
  from r ch obtain out' where "render_node ?n (zeros 2 3 (Some 3)) = Inr out'"
    "\<forall>r c. covers (zeros 2 3 (Some 3)) ?n r c \<longrightarrow> pixel_at out' r c = map uint [1, 2, 3 :: 8 word]"
    by blast
  with cv u have "render_node ?n (zeros 2 3 (Some 3)) = Inr out' \<and>
      pixel_at out' 0 0 = [1, 2, 3] \<and> pixel_at out' 1 0 = [1, 2, 3]" by metis
  with g b show ?thesis by auto
qed

end
